theory Spec2Isabelle
  imports Complex_Main "HOL-Library.AList" "HOL-Library.Multiset" "HOL-Library.Product_Lexorder"
begin

section \<open>Multiple-boundary edit distance (segeval.similarity.distance.multipleboundary)\<close>

text \<open>
  Boundary labels are Python integers (\<open>int\<close>), a boundary string is a list of frozensets
  of labels (\<open>int set list\<close>). Python's sets are finite; theorems that depend on \<open>len\<close> or
  on \<open>sorted\<close> of a set carry the finiteness of the sets as a hypothesis.

  Two things of CPython are fixed by the model and stated here once:
  \<^item> iterating over a set visits the elements in ascending order (what CPython does for
    small sets of small non-negative integers; the language leaves the order open), and
    a set of pairs in lexicographic order;
  \<^item> the identity tests \<open>t[2] is d\<close> and \<open>len(added) is len(additions)\<close> are read as
    equality of the integers (what CPython does for the cached small integers).

  The named tuples \<open>Addition\<close>, \<open>Substitution\<close>, \<open>Transposition\<close> and \<open>Difference\<close> are
  datatypes with one constructor; the field \<open>type\<close> is \<open>add_type\<close> and \<open>tr_type\<close>,
  \<open>side\<close> is \<open>add_side\<close>, \<open>start\<close> and \<open>end\<close> are \<open>tr_start\<close> and \<open>tr_end\<close>. The sets
  of a \<open>Difference\<close> are mutated in place by \<open>find_transpositions\<close>; no other object
  refers to them, so the mutation is the replacement of the record in the dictionary,
  and \<open>find_transpositions\<close> returns the dictionary together with its list.
\<close>

subsection \<open>Data\<close>

datatype error = IndexError | KeyError | AssertionError

datatype Addition = Addition (add_type: int) (add_side: string)
datatype Substitution = Substitution (type_a: int) (type_b: int)
datatype Transposition = Transposition (tr_start: int) (tr_end: int) (tr_type: int)
datatype Difference = Difference (sim: "int set") (a_b: "int set") (b_a: "int set")

text \<open>The dictionary \<open>options_set\<close> keeps insertion order: an association list.\<close>

type_synonym options = "(int \<times> Difference) list"

text \<open>The state threaded through the loops of \<open>find_transpositions\<close>:
  \<open>options_transp\<close>, \<open>transpositions\<close>, \<open>options_set\<close>.\<close>

type_synonym ft_state = "(int \<rightharpoonup> Transposition list) \<times> Transposition list \<times> options"

subsection \<open>Python primitives\<close>

text \<open>\<open>xs[k]\<close>: a negative index counts from the end, out of range raises IndexError.\<close>

definition getitem :: "'a list \<Rightarrow> int \<Rightarrow> error + 'a" where
  "getitem xs k =
     (let n = int (length xs); p = (if k < 0 then n + k else k)
      in if 0 \<le> p \<and> p < n then Inr (xs ! nat p) else Inl IndexError)"

text \<open>\<open>range(lo, hi)\<close>.\<close>

definition range_py :: "int \<Rightarrow> int \<Rightarrow> int list" where
  "range_py lo hi = [lo..hi - 1]"

text \<open>\<open>x ^ y\<close> on sets.\<close>

definition set_xor :: "int set \<Rightarrow> int set \<Rightarrow> int set" where
  "set_xor x y = (x - y) \<union> (y - x)"

text \<open>A loop whose body may raise: the first error ends it.\<close>

fun fold_err :: "('a \<Rightarrow> 's \<Rightarrow> error + 's) \<Rightarrow> 'a list \<Rightarrow> 's \<Rightarrow> error + 's" where
  "fold_err f [] s = Inr s"
| "fold_err f (x # xs) s = (case f x s of Inl e \<Rightarrow> Inl e | Inr s' \<Rightarrow> fold_err f xs s')"

text \<open>\<open>itertools.permutations(xs)\<close>: every ordering, in lexicographic order of the
  positions chosen.\<close>

fun permutations :: "'a list \<Rightarrow> 'a list list" where
  "permutations [] = [[]]"
| "permutations (v # va) =
     concat (map (\<lambda>i. map ((#) ((v # va) ! i))
                        (permutations (take i (v # va) @ drop (Suc i) (v # va))))
                 [0..<length (v # va)])"

subsection \<open>additions\_substitutions\<close>

text \<open>\<open>/\<close> is true division (\<open>from __future__ import division\<close>); the quotient is kept
  exact as a rational.\<close>

definition additions_substitutions :: "int set \<Rightarrow> int set \<Rightarrow> int set \<Rightarrow> int \<times> rat" where
  "additions_substitutions d a b =
     (let additions = \<bar>int (card a) - int (card b)\<bar>;
          substitutions = of_int (int (card d) - additions) / 2
      in (additions, substitutions))"

subsection \<open>additions\_substitutions\_sets\<close>

definition current_delta :: "(int \<times> int) set \<Rightarrow> int" where
  "current_delta current_substitutions = (\<Sum>(a_i, b_i)\<in>current_substitutions. \<bar>a_i - b_i\<bar>)"

text \<open>The body of the two nested loops over the permutations; the state is
  \<open>(delta, substitutions)\<close>, at first \<open>None\<close> and empty. \<open>zip\<close> stops at the shorter
  permutation.\<close>

definition try_pairing ::
  "int list \<times> int list \<Rightarrow> int option \<times> (int \<times> int) set \<Rightarrow> int option \<times> (int \<times> int) set" where
  "try_pairing = (\<lambda>(perm_a, perm_b) (delta, substitutions).
     let current_substitutions = set (zip perm_a perm_b);
         cd = current_delta current_substitutions
     in (case delta of
           None \<Rightarrow> (Some cd, current_substitutions)
         | Some dl \<Rightarrow> if cd < dl then (Some cd, current_substitutions)
                      else (delta, substitutions)))"

text \<open>The two loops: every permutation of \<open>sorted(a)\<close> with every permutation of
  \<open>sorted(b)\<close>; the first pairing of least \<open>delta\<close> is kept.\<close>

definition best_pairing :: "int set \<Rightarrow> int set \<Rightarrow> (int \<times> int) set" where
  "best_pairing a b =
     snd (fold try_pairing
            (List.product (permutations (sorted_list_of_set a))
                          (permutations (sorted_list_of_set b)))
            (None, {}))"

definition additions_substitutions_sets ::
  "int set \<Rightarrow> int set \<Rightarrow> int set \<Rightarrow> error + (Addition list \<times> Substitution set)" where
  "additions_substitutions_sets d a b =
     (let substitutions = best_pairing a b;
          substituted = concat (map (\<lambda>(a_i, b_i). [a_i, b_i]) (sorted_list_of_set substitutions));
          additions = d - set substituted;
          added = map (\<lambda>addition. Addition addition ''a'')
                      (sorted_list_of_set (a - set substituted))
                  @ map (\<lambda>addition. Addition addition ''b'')
                      (sorted_list_of_set (b - set substituted))
      in if int (length added) = int (card additions)
         then Inr (added, (\<lambda>(a_i, b_i). Substitution a_i b_i) ` substitutions)
         else Inl AssertionError)"

subsection \<open>The two tests of a transposition candidate\<close>

definition has_substitutions :: "int \<Rightarrow> int \<Rightarrow> int \<Rightarrow> options \<Rightarrow> bool" where
  "has_substitutions i j d options_set =
     (case map_of options_set i of
        None \<Rightarrow> False
      | Some o_i \<Rightarrow>
         (case map_of options_set j of
            None \<Rightarrow> False
          | Some o_j \<Rightarrow>
              d \<in> sim o_i \<and> d \<in> sim o_j
              \<and> snd (additions_substitutions (sim o_i) (a_b o_i) (b_a o_i)) > 0
              \<and> snd (additions_substitutions (sim o_j) (a_b o_j) (b_a o_j)) > 0))"

definition check_position :: "(int \<rightharpoonup> Transposition list) \<Rightarrow> int \<Rightarrow> int \<Rightarrow> bool" where
  "check_position options_transp d position =
     (case options_transp position of
        None \<Rightarrow> False
      | Some ts \<Rightarrow> list_ex (\<lambda>t. tr_type t = d) ts)"

definition overlaps_existing ::
  "int \<Rightarrow> int \<Rightarrow> int \<Rightarrow> (int \<rightharpoonup> Transposition list) \<Rightarrow> bool" where
  "overlaps_existing i j d options_transp =
     (check_position options_transp d i \<or> check_position options_transp d j)"

subsection \<open>find\_transpositions\<close>

text \<open>\<open>options_set[i][0].discard(d)\<close>, \<open>[1]\<close>, \<open>[2]\<close>: KeyError when the position has no
  record.\<close>

definition discard_at :: "int \<Rightarrow> int \<Rightarrow> options \<Rightarrow> error + options" where
  "discard_at i d options_set =
     (case map_of options_set i of
        None \<Rightarrow> Inl KeyError
      | Some _ \<Rightarrow>
          Inr (AList.map_entry i
                 (\<lambda>r. Difference (sim r - {d}) (a_b r - {d}) (b_a r - {d})) options_set))"

definition record_position ::
  "int \<Rightarrow> Transposition \<Rightarrow> (int \<rightharpoonup> Transposition list) \<Rightarrow> (int \<rightharpoonup> Transposition list)" where
  "record_position p t options_transp =
     options_transp(p \<mapsto> (case options_transp p of None \<Rightarrow> [] | Some ts \<Rightarrow> ts) @ [t])"

text \<open>The body of \<open>for d in t_p\<close>.\<close>

definition try_transposition :: "int \<Rightarrow> int \<Rightarrow> int \<Rightarrow> ft_state \<Rightarrow> error + ft_state" where
  "try_transposition i j d = (\<lambda>(options_transp, transpositions, options_set).
     let option_transp = Transposition i j d
     in if \<not> overlaps_existing i j d options_transp \<and> \<not> has_substitutions i j d options_set
        then (case discard_at i d options_set of
                Inl e \<Rightarrow> Inl e
              | Inr os_i \<Rightarrow>
                 (case discard_at j d os_i of
                    Inl e \<Rightarrow> Inl e
                  | Inr os_j \<Rightarrow>
                      Inr (record_position j option_transp
                             (record_position i option_transp options_transp),
                           transpositions @ [option_transp],
                           os_j)))
        else Inr (options_transp, transpositions, options_set))"

text \<open>The body of \<open>for i in range(0, len(boundary_string_a) - n_i)\<close>.\<close>

definition scan_position ::
  "int set list \<Rightarrow> int set list \<Rightarrow> int \<Rightarrow> int \<Rightarrow> ft_state \<Rightarrow> error + ft_state" where
  "scan_position boundary_string_a boundary_string_b n_i i st =
     (let j = i + n_i in
      case getitem boundary_string_a i of Inl e \<Rightarrow> Inl e | Inr a_i \<Rightarrow>
      case getitem boundary_string_a j of Inl e \<Rightarrow> Inl e | Inr a_j \<Rightarrow>
      case getitem boundary_string_b i of Inl e \<Rightarrow> Inl e | Inr b_i \<Rightarrow>
      case getitem boundary_string_b j of Inl e \<Rightarrow> Inl e | Inr b_j \<Rightarrow>
        (let diff_i = set_xor a_i b_i;
             diff_j = set_xor a_j b_j;
             diff_a = set_xor a_i a_j;
             diff_b = set_xor b_i b_j;
             t_p = diff_i \<inter> diff_j \<inter> diff_a \<inter> diff_b
         in fold_err (try_transposition i j) (sorted_list_of_set t_p) st))"

text \<open>The body of \<open>for n_i in sorted(n_t)\<close>.\<close>

definition scan_span ::
  "int set list \<Rightarrow> int set list \<Rightarrow> int \<Rightarrow> ft_state \<Rightarrow> error + ft_state" where
  "scan_span boundary_string_a boundary_string_b n st =
     (let n_i = n - 1
      in fold_err (scan_position boundary_string_a boundary_string_b n_i)
                  (range_py 0 (int (length boundary_string_a) - n_i)) st)"

text \<open>Returns the transpositions and the mutated \<open>options_set\<close>.\<close>

definition find_transpositions ::
  "int set list \<Rightarrow> int set list \<Rightarrow> int list \<Rightarrow> options
     \<Rightarrow> error + (Transposition list \<times> options)" where
  "find_transpositions boundary_string_a boundary_string_b n_t options_set =
     (case fold_err (scan_span boundary_string_a boundary_string_b) (sort n_t)
             (Map.empty, [], options_set) of
        Inl e \<Rightarrow> Inl e
      | Inr (options_transp, transpositions, options_set') \<Rightarrow>
          Inr (transpositions, options_set'))"

subsection \<open>optional\_set\_edits\<close>

definition optional_set_edits :: "int set list \<Rightarrow> int set list \<Rightarrow> options" where
  "optional_set_edits boundary_string_a boundary_string_b =
     concat (map (\<lambda>(i, (a_i, b_i)).
                    let a = a_i - b_i; b = b_i - a_i; d = set_xor a_i b_i
                    in if card d > 0 then [(int i, Difference d a b)] else [])
                 (List.enumerate 0 (zip boundary_string_a boundary_string_b)))"

subsection \<open>boundary\_edit\_distance\<close>

text \<open>Iterating over the set of substitutions of one position.\<close>

definition substitution_list :: "Substitution set \<Rightarrow> Substitution list" where
  "substitution_list s =
     map (\<lambda>(x, y). Substitution x y) (sorted_list_of_set ((\<lambda>t. (type_a t, type_b t)) ` s))"

text \<open>The body of \<open>for option in options_set.values()\<close>.\<close>

definition construct ::
  "Difference \<Rightarrow> Addition list \<times> Substitution list
     \<Rightarrow> error + (Addition list \<times> Substitution list)" where
  "construct option' = (\<lambda>(additions, substitutions).
     case additions_substitutions_sets (sim option') (a_b option') (b_a option') of
       Inl e \<Rightarrow> Inl e
     | Inr (current_additions, current_substitutions) \<Rightarrow>
         Inr (additions @ current_additions,
              substitutions @ substitution_list current_substitutions))"

definition boundary_edit_distance ::
  "int set list \<Rightarrow> int set list \<Rightarrow> int
     \<Rightarrow> error + (Addition list \<times> Substitution list \<times> Transposition list)" where
  "boundary_edit_distance boundary_string_a boundary_string_b n_t =
     (let n_t' = range_py 2 (n_t + 1);
          options_set = optional_set_edits boundary_string_a boundary_string_b
      in case find_transpositions boundary_string_a boundary_string_b n_t' options_set of
           Inl e \<Rightarrow> Inl e
         | Inr (transpositions, options_set') \<Rightarrow>
            (case fold_err construct (map snd options_set') ([], []) of
               Inl e \<Rightarrow> Inl e
             | Inr (additions, substitutions) \<Rightarrow>
                 Inr (additions, substitutions, transpositions)))"

section \<open>Predicates used in the proofs\<close>

definition removed_at :: "options \<Rightarrow> int \<Rightarrow> int \<Rightarrow> bool" where
  "removed_at os p d =
     (case map_of os p of None \<Rightarrow> True
      | Some r \<Rightarrow> d \<notin> sim r \<and> d \<notin> a_b r \<and> d \<notin> b_a r)"

text \<open>A maximal pairing of \<open>a\<close> against \<open>b\<close>: pairs of one label of \<open>a\<close> with one
  of \<open>b\<close>, no label used twice, as many pairs as the smaller set has labels.\<close>

definition pairing :: "int set \<Rightarrow> int set \<Rightarrow> (int \<times> int) set \<Rightarrow> bool" where
  "pairing a b P \<longleftrightarrow>
     P \<subseteq> a \<times> b \<and> inj_on fst P \<and> inj_on snd P \<and> card P = min (card a) (card b)"

text \<open>The state of \<open>find_transpositions\<close>: a record is well formed when its three
  sets are those of a position (\<open>sim\<close> the disjoint union of \<open>a_b\<close> and \<open>b_a\<close>);
  \<open>claimed ts p d\<close> says that an accepted transposition of label \<open>d\<close> starts or ends at
  \<open>p\<close>; \<open>recorded\<close> says that \<open>options_transp\<close> lists, at each position, the accepted
  transpositions that touch it; \<open>total\<close> counts the labels left in the records.\<close>

definition wf_diff :: "Difference \<Rightarrow> bool" where
  "wf_diff r \<longleftrightarrow> finite (sim r) \<and> a_b r \<inter> b_a r = {} \<and> sim r = a_b r \<union> b_a r"

definition wf_options :: "options \<Rightarrow> bool" where
  "wf_options os \<longleftrightarrow> list_all (\<lambda>(p, r). wf_diff r) os"

definition claimed :: "Transposition list \<Rightarrow> int \<Rightarrow> int \<Rightarrow> bool" where
  "claimed ts p d \<longleftrightarrow> list_ex (\<lambda>t. tr_type t = d \<and> (tr_start t = p \<or> tr_end t = p)) ts"

definition recorded :: "(int \<rightharpoonup> Transposition list) \<Rightarrow> Transposition list \<Rightarrow> bool" where
  "recorded ot ts \<longleftrightarrow> (\<forall>p d. check_position ot d p = claimed ts p d)"

definition total :: "options \<Rightarrow> nat" where
  "total os = sum_list (map (\<lambda>(p, r). card (sim r)) os)"

text \<open>The labels tested at the pair of positions \<open>(i, j)\<close>, and the link between the
  strings and the state: a label that differs at a position is either claimed by an
  accepted transposition there or still in the record of the position.\<close>

definition candidates :: "int set list \<Rightarrow> int set list \<Rightarrow> int \<Rightarrow> int \<Rightarrow> int set" where
  "candidates A B i j =
     set_xor (A ! nat i) (B ! nat i) \<inter> set_xor (A ! nat j) (B ! nat j)
     \<inter> set_xor (A ! nat i) (A ! nat j) \<inter> set_xor (B ! nat i) (B ! nat j)"

definition covered :: "int set list \<Rightarrow> int set list \<Rightarrow> Transposition list \<Rightarrow> options \<Rightarrow> bool" where
  "covered A B ts os \<longleftrightarrow>
     (\<forall>p d. 0 \<le> p \<and> p < int (length A) \<and> p < int (length B)
            \<and> d \<in> set_xor (A ! nat p) (B ! nat p)
        \<longrightarrow> claimed ts p d \<or> (\<exists>r. map_of os p = Some r \<and> d \<in> sim r))"

text \<open>The invariant of the scan started on the records of \<open>optional_set_edits\<close>; \<open>N\<close>
  is the number of differing label occurrences.\<close>

definition scan_inv :: "int set list \<Rightarrow> int set list \<Rightarrow> nat \<Rightarrow> ft_state \<Rightarrow> bool" where
  "scan_inv A B N = (\<lambda>(ot, ts, os).
     wf_options os \<and> recorded ot ts \<and> covered A B ts os \<and> total os + 2 * length ts = N)"

text \<open>The body of the loop of \<open>optional_set_edits\<close>, named.\<close>

definition position_edits :: "nat \<times> int set \<times> int set \<Rightarrow> options" where
  "position_edits = (\<lambda>(i, (a_i, b_i)).
     let a = a_i - b_i; b = b_i - a_i; d = set_xor a_i b_i
     in if card d > 0 then [(int i, Difference d a b)] else [])"



text \<open>The scan with the single span 2, before and after it reaches the pair
  \<open>(k, k + 1)\<close> at which the label \<open>l\<close> is the only disagreement.\<close>

definition before_inv ::
  "int set list \<Rightarrow> int set list \<Rightarrow> nat \<Rightarrow> int \<Rightarrow> int \<Rightarrow> ft_state \<Rightarrow> bool" where
  "before_inv A B N k l = (\<lambda>(ot, ts, os).
     scan_inv A B N (ot, ts, os)
     \<and> (\<forall>r. map_of os k = Some r \<longrightarrow> sim r \<subseteq> {l})
     \<and> (\<forall>r. map_of os (k + 1) = Some r \<longrightarrow> sim r \<subseteq> {l})
     \<and> (\<forall>t\<in>set ts. 0 \<le> tr_start t \<and> tr_start t < k \<and> tr_end t = tr_start t + 1
            \<and> tr_type t \<in> candidates A B (tr_start t) (tr_start t + 1)))"

definition after_inv ::
  "int set list \<Rightarrow> int set list \<Rightarrow> nat \<Rightarrow> int \<Rightarrow> int \<Rightarrow> ft_state \<Rightarrow> bool" where
  "after_inv A B N k l = (\<lambda>(ot, ts, os).
     scan_inv A B N (ot, ts, os)
     \<and> count_list ts (Transposition k (k + 1) l) = 1
     \<and> map_of os k = Some (Difference {} {} {})
     \<and> map_of os (k + 1) = Some (Difference {} {} {}))"

section \<open>Auxiliary lemmas\<close>

subsection \<open>Loops and permutations\<close>

lemma fold_err_append:
  "fold_err f (xs @ ys) s = (case fold_err f xs s of Inl e \<Rightarrow> Inl e | Inr s' \<Rightarrow> fold_err f ys s')"
  by (induction xs arbitrary: s) (auto split: sum.splits)

lemma fold_err_inv:
  assumes "fold_err f xs s = Inr s'" and "P s"
    and "\<And>x t t'. x \<in> set xs \<Longrightarrow> P t \<Longrightarrow> f x t = Inr t' \<Longrightarrow> P t'"
  shows "P s'"
  using assms
proof (induction xs arbitrary: s)
  case Nil
  then show ?case by simp
next
  case (Cons x xs)
  from Cons.prems(1) obtain t where t: "f x s = Inr t" and rest: "fold_err f xs t = Inr s'"
    by (auto split: sum.splits)
  have "P t" using Cons.prems(2,3) t by auto
  then show ?case using Cons.IH[OF rest] Cons.prems(3) by auto
qed

lemma fold_err_total:
  assumes "P s"
    and "\<And>x t. x \<in> set xs \<Longrightarrow> P t \<Longrightarrow> \<exists>t'. f x t = Inr t' \<and> P t'"
  shows "\<exists>s'. fold_err f xs s = Inr s' \<and> P s'"
  using assms
proof (induction xs arbitrary: s)
  case Nil
  then show ?case by simp
next
  case (Cons x xs)
  from Cons.prems obtain t where t: "f x s = Inr t" "P t" by (meson list.set_intros(1))
  have "\<exists>s'. fold_err f xs t = Inr s' \<and> P s'"
    using Cons.IH[OF t(2)] Cons.prems(2) by auto
  then show ?case using t by simp
qed

lemma fold_err_cong:
  assumes "\<And>x t. x \<in> set xs \<Longrightarrow> f x t = g x t"
  shows "fold_err f xs s = fold_err g xs s"
  using assms by (induction xs arbitrary: s) (auto split: sum.splits)

lemma permutations_set:
  "xs \<noteq> [] \<Longrightarrow> set (permutations xs)
     = (\<Union>i\<in>{..<length xs}. (#) (xs ! i) ` set (permutations (take i xs @ drop (Suc i) xs)))"
  by (cases xs) (simp_all only: permutations.simps set_concat set_map set_upt atLeast0LessThan, simp_all)

lemma permutations_mset:
  "ys \<in> set (permutations xs) \<Longrightarrow> mset ys = mset xs"
proof (induction "length xs" arbitrary: xs ys rule: less_induct)
  case less
  show ?case
  proof (cases "xs = []")
    case True
    then show ?thesis using less.prems by simp
  next
    case False
    from less.prems obtain i zs where i: "i < length xs"
      and zs: "zs \<in> set (permutations (take i xs @ drop (Suc i) xs))"
      and ys: "ys = xs ! i # zs"
      unfolding permutations_set[OF False] by auto
    have "length (take i xs @ drop (Suc i) xs) < length xs" using i by simp
    then have "mset zs = mset (take i xs @ drop (Suc i) xs)"
      using less.hyps zs by blast
    moreover have "xs = take i xs @ xs ! i # drop (Suc i) xs"
      using i by (rule id_take_nth_drop)
    then have "mset xs = mset (take i xs @ xs ! i # drop (Suc i) xs)" by simp
    ultimately show ?thesis using ys by simp
  qed
qed

lemma permutations_complete:
  "mset ys = mset xs \<Longrightarrow> ys \<in> set (permutations xs)"
proof (induction "length xs" arbitrary: xs ys rule: less_induct)
  case less
  show ?case
  proof (cases "xs = []")
    case True
    then show ?thesis using less.prems by simp
  next
    case False
    with less.prems have "ys \<noteq> []" by auto
    then obtain y zs where ys: "ys = y # zs" by (cases ys) auto
    have "y \<in> set xs" using less.prems ys by (metis list.set_intros(1) mset_eq_setD)
    then obtain i where i: "i < length xs" "xs ! i = y" by (meson in_set_conv_nth)
    have split: "xs = take i xs @ y # drop (Suc i) xs"
      using id_take_nth_drop[OF i(1)] i(2) by simp
    have "mset xs = mset (take i xs @ drop (Suc i) xs) + {#y#}"
      by (subst split) simp
    then have m: "mset zs = mset (take i xs @ drop (Suc i) xs)"
      using less.prems ys by simp
    have "length (take i xs @ drop (Suc i) xs) < length xs" using i by simp
    then have "zs \<in> set (permutations (take i xs @ drop (Suc i) xs))"
      using less.hyps m by blast
    then show ?thesis
      unfolding permutations_set[OF False] using ys i by blast
  qed
qed

lemma permutations_sorted_iff:
  assumes "finite a"
  shows "ys \<in> set (permutations (sorted_list_of_set a)) \<longleftrightarrow> distinct ys \<and> set ys = a"
proof
  assume "ys \<in> set (permutations (sorted_list_of_set a))"
  then have "mset ys = mset (sorted_list_of_set a)" by (rule permutations_mset)
  then show "distinct ys \<and> set ys = a"
    using assms by (metis distinct_sorted_list_of_set mset_eq_imp_distinct_iff mset_eq_setD set_sorted_list_of_set)
next
  assume "distinct ys \<and> set ys = a"
  then have "mset ys = mset (sorted_list_of_set a)"
    using assms by (metis distinct_sorted_list_of_set set_eq_iff_mset_eq_distinct set_sorted_list_of_set)
  then show "ys \<in> set (permutations (sorted_list_of_set a))" by (rule permutations_complete)
qed

lemma additions_substitutions_eq:
  assumes "finite a" and "finite b" and "a \<inter> b = {}" and "d = a \<union> b"
  shows "additions_substitutions d a b
           = (\<bar>int (card a) - int (card b)\<bar>, of_nat (min (card a) (card b)))"
proof -
  have c: "card d = card a + card b"
    using assms by (simp add: card_Un_disjoint)
  have "int (card d) - \<bar>int (card a) - int (card b)\<bar> = 2 * int (min (card a) (card b))"
    unfolding c by (simp add: min_def)
  then show ?thesis
    by (simp add: additions_substitutions_def Let_def)
qed


subsection \<open>Indexing, records and the loop bodies\<close>

lemma in_sorted_list_of_setD: "d \<in> set (sorted_list_of_set S) \<Longrightarrow> d \<in> S"
  by (cases "finite S") (simp_all add: sorted_list_of_set.fold_insort_key.infinite)

lemma getitem_nth:
  "0 \<le> k \<Longrightarrow> k < int (length xs) \<Longrightarrow> getitem xs k = Inr (xs ! nat k)"
  by (simp add: getitem_def Let_def)

lemma set_range_py: "set (range_py lo hi) = {k. lo \<le> k \<and> k < hi}"
  by (auto simp: range_py_def)

lemma map_of_discard_at:
  assumes "discard_at i d os = Inr os'"
  shows "map_of os' p =
           (if p = i then map_option (\<lambda>r. Difference (sim r - {d}) (a_b r - {d}) (b_a r - {d}))
                            (map_of os p)
            else map_of os p)"
  using assms
  by (auto simp: discard_at_def map_of_map_entry split: option.splits)



lemma discard_at_ok:
  "map_of os i = Some r \<Longrightarrow> \<exists>os'. discard_at i d os = Inr os'"
  by (simp add: discard_at_def)

lemma try_transposition_cases:
  assumes "try_transposition i j d (ot, ts, os) = Inr st'"
  obtains (rejected) "overlaps_existing i j d ot \<or> has_substitutions i j d os"
      and "st' = (ot, ts, os)"
  | (accepted) os_i os_j where "\<not> overlaps_existing i j d ot"
      and "\<not> has_substitutions i j d os"
      and "discard_at i d os = Inr os_i" and "discard_at j d os_i = Inr os_j"
      and "st' = (record_position j (Transposition i j d)
                    (record_position i (Transposition i j d) ot),
                  ts @ [Transposition i j d], os_j)"
  using assms
  by (auto simp: try_transposition_def Let_def split: if_splits sum.splits)

lemma scan_position_inv:
  assumes run: "scan_position A B n_i i st = Inr st'" and init: "P st"
    and step: "\<And>d t t'. P t \<Longrightarrow> try_transposition i (i + n_i) d t = Inr t' \<Longrightarrow> P t'"
  shows "P st'"
proof -
  from run obtain ds where "fold_err (try_transposition i (i + n_i)) ds st = Inr st'"
    by (auto simp: scan_position_def Let_def split: sum.splits)
  then show ?thesis
    using init step by (rule fold_err_inv)
qed

lemma scan_span_inv:
  assumes run: "scan_span A B n st = Inr st'" and init: "P st"
    and step: "\<And>i j d t t'. j = i + (n - 1) \<Longrightarrow> P t \<Longrightarrow> try_transposition i j d t = Inr t' \<Longrightarrow> P t'"
  shows "P st'"
proof -
  from run have "fold_err (scan_position A B (n - 1)) (range_py 0 (int (length A) - (n - 1))) st
                   = Inr st'"
    by (simp add: scan_span_def Let_def)
  then show ?thesis
    using init
  proof (rule fold_err_inv)
    fix i t t'
    assume "P t" and "scan_position A B (n - 1) i t = Inr t'"
    then show "P t'"
      using step by (auto elim!: scan_position_inv[where P = P and st = t])
  qed
qed

lemma find_transpositions_inv:
  assumes run: "find_transpositions A B n_t os = Inr (ts, os')"
    and init: "P (Map.empty, [], os)"
    and step: "\<And>n i j d t t'. n \<in> set n_t \<Longrightarrow> j = i + (n - 1) \<Longrightarrow> P t
                 \<Longrightarrow> try_transposition i j d t = Inr t' \<Longrightarrow> P t'"
  shows "\<exists>ot. P (ot, ts, os')"
proof -
  from run obtain ot where
    f: "fold_err (scan_span A B) (sort n_t) (Map.empty, [], os) = Inr (ot, ts, os')"
    by (auto simp: find_transpositions_def split: sum.splits)
  have "P (ot, ts, os')"
    using f init
  proof (rule fold_err_inv)
    fix n t t'
    assume "n \<in> set (sort n_t)" and "P t" and "scan_span A B n t = Inr t'"
    then show "P t'"
      using step[of n] by (auto elim!: scan_span_inv[where P = P and st = t])
  qed
  then show ?thesis by blast
qed


lemma removed_at_discard:
  assumes "discard_at i d os = Inr os'"
  shows "removed_at os' i d" and "removed_at os p e \<Longrightarrow> removed_at os' p e"
  using assms
  by (auto simp: removed_at_def map_of_discard_at[OF assms] split: option.splits)

lemma try_transposition_removed:
  assumes "try_transposition i j d (ot, ts, os) = Inr (ot', ts', os')"
    and "\<forall>t\<in>set ts. removed_at os (tr_start t) (tr_type t) \<and> removed_at os (tr_end t) (tr_type t)"
  shows "\<forall>t\<in>set ts'. removed_at os' (tr_start t) (tr_type t) \<and> removed_at os' (tr_end t) (tr_type t)"
  using assms(1)
proof (cases rule: try_transposition_cases)
  case rejected
  then show ?thesis using assms(2) by simp
next
  case (accepted os_i os_j)
  have "removed_at os_i i d" using accepted(3) by (rule removed_at_discard(1))
  then have "removed_at os_j i d" using accepted(4) by (rule removed_at_discard(2)[rotated])
  moreover have "removed_at os_j j d" using accepted(4) by (rule removed_at_discard(1))
  moreover have "removed_at os p e \<Longrightarrow> removed_at os_j p e" for p e
    using removed_at_discard(2)[OF accepted(3)] removed_at_discard(2)[OF accepted(4)] by blast
  ultimately show ?thesis using accepted(5) assms(2) by auto
qed

subsection \<open>The substitution matcher\<close>

lemma try_pairing_Some:
  "try_pairing (pa, pb) (Some (current_delta S0), S0) =
     (if current_delta (set (zip pa pb)) < current_delta S0
      then (Some (current_delta (set (zip pa pb))), set (zip pa pb))
      else (Some (current_delta S0), S0))"
  by (simp add: try_pairing_def Let_def)

lemma fold_try_pairing_Some:
  assumes "fold try_pairing pps (Some (current_delta S0), S0) = (dl, S)"
  shows "dl = Some (current_delta S) \<and> current_delta S \<le> current_delta S0
         \<and> (S = S0 \<or> (\<exists>pp\<in>set pps. S = set (zip (fst pp) (snd pp))))
         \<and> (\<forall>qq\<in>set pps. current_delta S \<le> current_delta (set (zip (fst qq) (snd qq))))"
  using assms
proof (induction pps arbitrary: S0)
  case Nil
  then show ?case by auto
next
  case (Cons pp pps)
  obtain pa pb where pp: "pp = (pa, pb)" by (cases pp)
  let ?Z = "set (zip pa pb)"
  show ?case
  proof (cases "current_delta ?Z < current_delta S0")
    case True
    then have "fold try_pairing pps (Some (current_delta ?Z), ?Z) = (dl, S)"
      using Cons.prems by (simp add: pp try_pairing_Some)
    from Cons.IH[OF this] show ?thesis using True pp by auto
  next
    case False
    then have "fold try_pairing pps (Some (current_delta S0), S0) = (dl, S)"
      using Cons.prems by (simp add: pp try_pairing_Some)
    from Cons.IH[OF this] show ?thesis using False pp by auto
  qed
qed

lemma fold_try_pairing_best:
  assumes "pps \<noteq> []"
  shows "\<exists>pp\<in>set pps. snd (fold try_pairing pps (None, {})) = set (zip (fst pp) (snd pp))
           \<and> (\<forall>qq\<in>set pps. current_delta (set (zip (fst pp) (snd pp)))
                                \<le> current_delta (set (zip (fst qq) (snd qq))))"
proof -
  from assms obtain pa pb rest where pps: "pps = (pa, pb) # rest"
    by (cases pps) auto
  let ?Z = "set (zip pa pb)"
  obtain dl S where r: "fold try_pairing rest (Some (current_delta ?Z), ?Z) = (dl, S)"
    by (cases "fold try_pairing rest (Some (current_delta ?Z), ?Z)")
  have first: "try_pairing (pa, pb) (None, {}) = (Some (current_delta ?Z), ?Z)"
    by (simp add: try_pairing_def Let_def)
  have res: "snd (fold try_pairing pps (None, {})) = S"
    using r by (simp add: pps first)
  from fold_try_pairing_Some[OF r]
  have le: "current_delta S \<le> current_delta ?Z"
    and src: "S = ?Z \<or> (\<exists>pp\<in>set rest. S = set (zip (fst pp) (snd pp)))"
    and best: "\<forall>qq\<in>set rest. current_delta S \<le> current_delta (set (zip (fst qq) (snd qq)))"
    by auto
  from src have "\<exists>pp\<in>set pps. S = set (zip (fst pp) (snd pp))"
    unfolding pps by auto
  then obtain pp where "pp \<in> set pps" "S = set (zip (fst pp) (snd pp))"
    by blast
  then show ?thesis
    using le best res unfolding pps by auto
qed

lemma in_set_not_Nil: "x \<in> set xs \<Longrightarrow> xs \<noteq> []"
  by auto

lemma best_pairing_zip:
  assumes "finite a" and "finite b"
  shows "\<exists>pa pb. distinct pa \<and> set pa = a \<and> distinct pb \<and> set pb = b
           \<and> best_pairing a b = set (zip pa pb)
           \<and> (\<forall>qa qb. distinct qa \<and> set qa = a \<and> distinct qb \<and> set qb = b
                 \<longrightarrow> current_delta (best_pairing a b) \<le> current_delta (set (zip qa qb)))"
proof -
  let ?pps = "List.product (permutations (sorted_list_of_set a))
                           (permutations (sorted_list_of_set b))"
  have mem: "(qa, qb) \<in> set ?pps \<longleftrightarrow> distinct qa \<and> set qa = a \<and> distinct qb \<and> set qb = b"
    for qa qb
    using assms by (simp add: permutations_sorted_iff)
  have "(sorted_list_of_set a, sorted_list_of_set b) \<in> set ?pps"
    unfolding mem using assms by simp
  then have "?pps \<noteq> []" by (rule in_set_not_Nil)
  from fold_try_pairing_best[OF this] obtain pp where pp: "pp \<in> set ?pps"
    and eq: "best_pairing a b = set (zip (fst pp) (snd pp))"
    and best: "\<forall>qq\<in>set ?pps. current_delta (set (zip (fst pp) (snd pp)))
                                \<le> current_delta (set (zip (fst qq) (snd qq)))"
    unfolding best_pairing_def by blast
  obtain pa pb where p: "pp = (pa, pb)" by (cases pp)
  have "distinct pa \<and> set pa = a \<and> distinct pb \<and> set pb = b"
    using pp unfolding p mem .
  moreover have "current_delta (best_pairing a b) \<le> current_delta (set (zip qa qb))"
    if "distinct qa \<and> set qa = a \<and> distinct qb \<and> set qb = b" for qa qb
  proof -
    from that have "(qa, qb) \<in> set ?pps" unfolding mem .
    with best show ?thesis unfolding eq by fastforce
  qed
  ultimately show ?thesis using eq p by auto
qed

lemma zip_pairing:
  assumes "distinct pa" and "distinct pb"
  shows "pairing (set pa) (set pb) (set (zip pa pb))"
proof -
  have d: "distinct (zip pa pb)" using assms by (simp add: distinct_zipI1)
  have "card (set (zip pa pb)) = min (length pa) (length pb)"
    using d by (simp add: distinct_card)
  then have c: "card (set (zip pa pb)) = min (card (set pa)) (card (set pb))"
    using assms by (simp add: distinct_card)
  have "distinct (map fst (zip pa pb))"
    using assms(1) by (simp add: map_fst_zip_take)
  then have i1: "inj_on fst (set (zip pa pb))"
    by (simp add: distinct_map)
  have "distinct (map snd (zip pa pb))"
    using assms(2) by (simp add: map_snd_zip_take)
  then have i2: "inj_on snd (set (zip pa pb))"
    by (simp add: distinct_map)
  have "set (zip pa pb) \<subseteq> set pa \<times> set pb"
    by (auto dest: set_zip_leftD set_zip_rightD)
  then show ?thesis using c i1 i2 by (simp add: pairing_def)
qed

lemma pairing_as_zip:
  assumes fa: "finite a" and fb: "finite b" and P: "pairing a b P"
  shows "\<exists>pa pb. distinct pa \<and> set pa = a \<and> distinct pb \<and> set pb = b \<and> set (zip pa pb) = P"
proof -
  from P have sub: "P \<subseteq> a \<times> b" and i1: "inj_on fst P" and i2: "inj_on snd P"
    and c: "card P = min (card a) (card b)"
    by (simp_all add: pairing_def)
  have fP: "finite P" using sub fa fb by (meson finite_SigmaI finite_subset)
  obtain ps where ps: "set ps = P" "distinct ps"
    using fP finite_distinct_list by blast
  let ?ra = "sorted_list_of_set (a - fst ` P)"
  let ?rb = "sorted_list_of_set (b - snd ` P)"
  let ?pa = "map fst ps @ ?ra"
  let ?pb = "map snd ps @ ?rb"
  have fsub: "fst ` P \<subseteq> a" and ssub: "snd ` P \<subseteq> b" using sub by auto
  have da: "distinct ?pa" using ps i1 fa by (auto simp: distinct_map)
  have db: "distinct ?pb" using ps i2 fb by (auto simp: distinct_map)
  have sa: "set ?pa = a" using ps fsub fa by auto
  have sb: "set ?pb = b" using ps ssub fb by auto
  have cf: "card (fst ` P) = card P" using i1 by (rule card_image)
  have cs: "card (snd ` P) = card P" using i2 by (rule card_image)
  have "card (a - fst ` P) = card a - card P"
    using fsub fa cf by (metis card_Diff_subset finite_subset)
  moreover have "card (b - snd ` P) = card b - card P"
    using ssub fb cs by (metis card_Diff_subset finite_subset)
  ultimately have "?ra = [] \<or> ?rb = []"
    using c fa fb
    by (metis card_eq_0_iff diff_is_0_eq finite_Diff min_def nat_le_linear
        sorted_list_of_set_eq_Nil_iff)
  then have "zip ?pa ?pb = zip (map fst ps) (map snd ps)"
    by (auto simp: zip_append1 zip_append2)
  also have "\<dots> = ps" by (simp add: zip_map_fst_snd)
  finally have "set (zip ?pa ?pb) = P" using ps by simp
  then show ?thesis using da db sa sb by blast
qed

lemma best_pairing_pairing:
  assumes "finite a" and "finite b"
  shows "pairing a b (best_pairing a b)"
  using best_pairing_zip[OF assms] zip_pairing by metis

lemma best_pairing_minimal:
  assumes "finite a" and "finite b" and "pairing a b P"
  shows "current_delta (best_pairing a b) \<le> current_delta P"
  using best_pairing_zip[OF assms(1,2)] pairing_as_zip[OF assms] by metis


lemma pairing_finite:
  "finite a \<Longrightarrow> finite b \<Longrightarrow> pairing a b P \<Longrightarrow> finite P"
  unfolding pairing_def by (meson finite_SigmaI finite_subset)

lemma substituted_set:
  "finite S \<Longrightarrow>
     set (concat (map (\<lambda>(a_i, b_i). [a_i, b_i]) (sorted_list_of_set S))) = fst ` S \<union> snd ` S"
  by (auto simp: image_iff) force+

lemma pairing_unpaired:
  assumes fa: "finite a" and fb: "finite b" and dj: "a \<inter> b = {}" and P: "pairing a b P"
  shows "a - (fst ` P \<union> snd ` P) = a - fst ` P"
    and "b - (fst ` P \<union> snd ` P) = b - snd ` P"
    and "card (a - fst ` P) = card a - card P"
    and "card (b - snd ` P) = card b - card P"
    and "(a \<union> b) - (fst ` P \<union> snd ` P) = (a - fst ` P) \<union> (b - snd ` P)"
proof -
  from P have sub: "P \<subseteq> a \<times> b" and i1: "inj_on fst P" and i2: "inj_on snd P"
    by (simp_all add: pairing_def)
  have fsub: "fst ` P \<subseteq> a" and ssub: "snd ` P \<subseteq> b" using sub by auto
  show "a - (fst ` P \<union> snd ` P) = a - fst ` P" using ssub dj by auto
  show "b - (fst ` P \<union> snd ` P) = b - snd ` P" using fsub dj by auto
  show "(a \<union> b) - (fst ` P \<union> snd ` P) = (a - fst ` P) \<union> (b - snd ` P)"
    using fsub ssub dj by auto
  have cf: "card (fst ` P) = card P" using i1 by (rule card_image)
  have cs: "card (snd ` P) = card P" using i2 by (rule card_image)
  show "card (a - fst ` P) = card a - card P"
    using fsub fa cf by (metis card_Diff_subset finite_subset)
  show "card (b - snd ` P) = card b - card P"
    using ssub fb cs by (metis card_Diff_subset finite_subset)
qed

lemma additions_substitutions_sets_eq:
  assumes fa: "finite a" and fb: "finite b" and dj: "a \<inter> b = {}" and d: "d = a \<union> b"
  shows "additions_substitutions_sets d a b =
           Inr (map (\<lambda>x. Addition x ''a'') (sorted_list_of_set (a - fst ` best_pairing a b))
                @ map (\<lambda>x. Addition x ''b'') (sorted_list_of_set (b - snd ` best_pairing a b)),
                (\<lambda>(x, y). Substitution x y) ` best_pairing a b)"
proof -
  let ?P = "best_pairing a b"
  have P: "pairing a b ?P" using fa fb by (rule best_pairing_pairing)
  have fP: "finite ?P" using fa fb P by (rule pairing_finite)
  note u = pairing_unpaired[OF fa fb dj P]
  have s: "set (concat (map (\<lambda>(a_i, b_i). [a_i, b_i]) (sorted_list_of_set ?P)))
             = fst ` ?P \<union> snd ` ?P"
    using fP by (rule substituted_set)
  have "(a - fst ` ?P) \<inter> (b - snd ` ?P) = {}" using dj by auto
  then have "card ((a - fst ` ?P) \<union> (b - snd ` ?P))
               = card (a - fst ` ?P) + card (b - snd ` ?P)"
    using fa fb by (simp add: card_Un_disjoint)
  then show ?thesis
    unfolding additions_substitutions_sets_def Let_def s d u(1,2,5)
    using fa fb by simp
qed

lemma substitution_list_image:
  "substitution_list ((\<lambda>(x, y). Substitution x y) ` P)
     = map (\<lambda>(x, y). Substitution x y) (sorted_list_of_set P)"
proof -
  have "(\<lambda>t. (type_a t, type_b t)) ` (\<lambda>(x, y). Substitution x y) ` P = P"
    by (force simp: image_iff)
  then show ?thesis by (simp add: substitution_list_def)
qed

lemma matcher_counts:
  assumes fa: "finite a" and fb: "finite b" and dj: "a \<inter> b = {}" and d: "d = a \<union> b"
  shows "\<exists>added subs. additions_substitutions_sets d a b = Inr (added, subs)
           \<and> length added + 2 * length (substitution_list subs) = card d
           \<and> length (substitution_list subs) = card subs
           \<and> card subs = min (card a) (card b)
           \<and> int (length added) = \<bar>int (card a) - int (card b)\<bar>"
proof -
  let ?P = "best_pairing a b"
  have P: "pairing a b ?P" using fa fb by (rule best_pairing_pairing)
  have fP: "finite ?P" using fa fb P by (rule pairing_finite)
  note u = pairing_unpaired[OF fa fb dj P]
  have c: "card ?P = min (card a) (card b)" using P by (simp add: pairing_def)
  have inj: "inj_on (\<lambda>(x, y). Substitution x y) ?P" by (auto simp: inj_on_def)
  have cs: "card ((\<lambda>(x, y). Substitution x y) ` ?P) = card ?P" using inj by (rule card_image)
  have cd: "card d = card a + card b" using fa fb dj d by (simp add: card_Un_disjoint)
  let ?added = "map (\<lambda>x. Addition x ''a'') (sorted_list_of_set (a - fst ` ?P))
                @ map (\<lambda>x. Addition x ''b'') (sorted_list_of_set (b - snd ` ?P))"
  let ?subs = "(\<lambda>(x, y). Substitution x y) ` ?P"
  have la: "length ?added = (card a - card ?P) + (card b - card ?P)"
    using fa fb u(3,4) by simp
  have ls: "length (substitution_list ?subs) = card ?P"
    unfolding substitution_list_image using fP by simp
  have "additions_substitutions_sets d a b = Inr (?added, ?subs)"
    using assms by (rule additions_substitutions_sets_eq)
  moreover have "length ?added + 2 * length (substitution_list ?subs) = card d"
    unfolding la ls c cd by (simp add: min_def)
  moreover have "length (substitution_list ?subs) = card ?subs"
    unfolding ls cs ..
  moreover have "card ?subs = min (card a) (card b)"
    unfolding cs c ..
  moreover have "int (length ?added) = \<bar>int (card a) - int (card b)\<bar>"
    unfolding la c by (simp add: min_def)
  ultimately show ?thesis by blast
qed

subsection \<open>Invariants of the transposition scan\<close>

lemma wf_options_map_of:
  "wf_options os \<Longrightarrow> map_of os p = Some r \<Longrightarrow> wf_diff r"
  by (auto simp: wf_options_def list_all_iff dest: map_of_SomeD)

lemma wf_diff_discard:
  "wf_diff r \<Longrightarrow> wf_diff (Difference (sim r - {d}) (a_b r - {d}) (b_a r - {d}))"
  by (auto simp: wf_diff_def)

lemma wf_options_map_entry:
  "wf_options os \<Longrightarrow> (\<And>r. wf_diff r \<Longrightarrow> wf_diff (f r)) \<Longrightarrow> wf_options (AList.map_entry k f os)"
  by (induction os) (auto simp: wf_options_def)

lemma wf_options_discard_at:
  "wf_options os \<Longrightarrow> discard_at i d os = Inr os' \<Longrightarrow> wf_options os'"
  by (auto simp: discard_at_def wf_options_map_entry wf_diff_discard split: option.splits)

lemma claimed_append:
  "claimed (ts @ [t]) p d \<longleftrightarrow> claimed ts p d \<or> (tr_type t = d \<and> (tr_start t = p \<or> tr_end t = p))"
  by (auto simp: claimed_def list_ex_iff)

lemma check_position_record:
  "check_position (record_position q t ot) d p
     \<longleftrightarrow> check_position ot d p \<or> (p = q \<and> tr_type t = d)"
  by (auto simp: check_position_def record_position_def list_ex_iff split: option.splits)

lemma recorded_empty: "recorded Map.empty []"
  by (simp add: recorded_def check_position_def claimed_def)

lemma recorded_accept:
  "recorded ot ts \<Longrightarrow>
     recorded (record_position j (Transposition i j d) (record_position i (Transposition i j d) ot))
              (ts @ [Transposition i j d])"
  by (auto simp: recorded_def check_position_record claimed_append)

lemma overlaps_existing_claimed:
  "recorded ot ts \<Longrightarrow> overlaps_existing i j d ot \<longleftrightarrow> claimed ts i d \<or> claimed ts j d"
  by (simp add: overlaps_existing_def recorded_def)

lemma has_substitutions_min:
  assumes "wf_options os"
  shows "has_substitutions i j d os \<longleftrightarrow>
           (\<exists>r_i r_j. map_of os i = Some r_i \<and> map_of os j = Some r_j
              \<and> d \<in> sim r_i \<and> d \<in> sim r_j
              \<and> 0 < min (card (a_b r_i)) (card (b_a r_i))
              \<and> 0 < min (card (a_b r_j)) (card (b_a r_j)))"
proof -
  have snd_eq: "snd (additions_substitutions (sim r) (a_b r) (b_a r))
                  = of_nat (min (card (a_b r)) (card (b_a r)))"
    if "wf_diff r" for r
  proof -
    from that have "finite (a_b r)" "finite (b_a r)" "a_b r \<inter> b_a r = {}" "sim r = a_b r \<union> b_a r"
      by (auto simp: wf_diff_def)
    then show ?thesis by (simp add: additions_substitutions_eq)
  qed
  show ?thesis
  proof (cases "map_of os i")
    case None
    then show ?thesis by (simp add: has_substitutions_def)
  next
    case (Some r_i)
    note Si = this
    show ?thesis
    proof (cases "map_of os j")
      case None
      then show ?thesis using Si by (simp add: has_substitutions_def)
    next
      case (Some r_j)
      have "wf_diff r_i" "wf_diff r_j"
        using assms Si Some by (auto dest: wf_options_map_of)
      then show ?thesis
        using Si Some by (simp add: has_substitutions_def snd_eq)
    qed
  qed
qed

lemma total_discard_at:
  assumes "map_of os i = Some r" and "d \<in> sim r" and "finite (sim r)"
    and "discard_at i d os = Inr os'"
  shows "total os' + 1 = total os"
proof -
  have "total (AList.map_entry i (\<lambda>r. Difference (sim r - {d}) (a_b r - {d}) (b_a r - {d})) os) + 1
          = total os"
    using assms(1-3)
  proof (induction os)
    case Nil
    then show ?case by simp
  next
    case (Cons e os)
    show ?case
    proof (cases "fst e = i")
      case True
      then have "snd e = r" using Cons.prems(1) by (cases e) auto
      moreover have "0 < card (sim r)" using Cons.prems(2,3) by (auto simp: card_gt_0_iff)
      ultimately show ?thesis using True Cons.prems(2,3) by (cases e) (simp add: total_def)
    next
      case False
      then have "map_of os i = Some r" using Cons.prems(1) by (cases e) auto
      from Cons.IH[OF this Cons.prems(2,3)] show ?thesis
        using False by (cases e) (simp add: total_def)
    qed
  qed
  then show ?thesis using assms(1,4) by (simp add: discard_at_def)
qed

lemma scan_position_eq:
  assumes "0 \<le> i" and "0 \<le> n_i" and "i + n_i < int (length A)" and "i + n_i < int (length B)"
  shows "scan_position A B n_i i st
           = fold_err (try_transposition i (i + n_i))
               (sorted_list_of_set (candidates A B i (i + n_i))) st"
proof -
  have "getitem A i = Inr (A ! nat i)" "getitem A (i + n_i) = Inr (A ! nat (i + n_i))"
    "getitem B i = Inr (B ! nat i)" "getitem B (i + n_i) = Inr (B ! nat (i + n_i))"
    using assms by (auto intro!: getitem_nth)
  then show ?thesis
    by (simp add: scan_position_def candidates_def Let_def)
qed

lemma scan_position_total:
  assumes "0 \<le> i" and "0 \<le> n_i" and "i + n_i < int (length A)" and "i + n_i < int (length B)"
    and init: "Q st"
    and step: "\<And>d t. d \<in> candidates A B i (i + n_i) \<Longrightarrow> Q t
                 \<Longrightarrow> \<exists>t'. try_transposition i (i + n_i) d t = Inr t' \<and> Q t'"
  shows "\<exists>st'. scan_position A B n_i i st = Inr st' \<and> Q st'"
  unfolding scan_position_eq[OF assms(1-4)]
  using init
proof (rule fold_err_total)
  fix d t
  assume "d \<in> set (sorted_list_of_set (candidates A B i (i + n_i)))" and "Q t"
  then show "\<exists>t'. try_transposition i (i + n_i) d t = Inr t' \<and> Q t'"
    using step in_sorted_list_of_setD by blast
qed

lemma scan_span_total:
  assumes n: "1 \<le> n" and len: "length A \<le> length B"
    and init: "Q st"
    and step: "\<And>i d t. 0 \<le> i \<Longrightarrow> i + (n - 1) < int (length A)
                 \<Longrightarrow> d \<in> candidates A B i (i + (n - 1)) \<Longrightarrow> Q t
                 \<Longrightarrow> \<exists>t'. try_transposition i (i + (n - 1)) d t = Inr t' \<and> Q t'"
  shows "\<exists>st'. scan_span A B n st = Inr st' \<and> Q st'"
  unfolding scan_span_def Let_def
  using init
proof (rule fold_err_total)
  fix i t
  assume i: "i \<in> set (range_py 0 (int (length A) - (n - 1)))" and Qt: "Q t"
  then have "0 \<le> i" "i + (n - 1) < int (length A)"
    by (auto simp: set_range_py)
  then show "\<exists>t'. scan_position A B (n - 1) i t = Inr t' \<and> Q t'"
    using n len Qt step by (intro scan_position_total) auto
qed

lemma find_transpositions_total:
  assumes n: "\<forall>n\<in>set n_t. 1 \<le> n" and len: "length A \<le> length B"
    and init: "Q (Map.empty, [], os)"
    and step: "\<And>n i d t. n \<in> set n_t \<Longrightarrow> 0 \<le> i \<Longrightarrow> i + (n - 1) < int (length A)
                 \<Longrightarrow> d \<in> candidates A B i (i + (n - 1)) \<Longrightarrow> Q t
                 \<Longrightarrow> \<exists>t'. try_transposition i (i + (n - 1)) d t = Inr t' \<and> Q t'"
  shows "\<exists>ot ts os'. find_transpositions A B n_t os = Inr (ts, os') \<and> Q (ot, ts, os')"
proof -
  have "\<exists>st'. fold_err (scan_span A B) (sort n_t) (Map.empty, [], os) = Inr st' \<and> Q st'"
    using init
  proof (rule fold_err_total)
    fix m t
    assume m: "m \<in> set (sort n_t)" and Qt: "Q t"
    then have "m \<in> set n_t" by simp
    then show "\<exists>t'. scan_span A B m t = Inr t' \<and> Q t'"
      using n len Qt step by (intro scan_span_total) auto
  qed
  then obtain ot ts os' where
    "fold_err (scan_span A B) (sort n_t) (Map.empty, [], os) = Inr (ot, ts, os')"
    and "Q (ot, ts, os')"
    by (metis prod_cases3)
  then show ?thesis by (auto simp: find_transpositions_def)
qed

lemma candidates_set_xor:
  "d \<in> candidates A B i j \<Longrightarrow>
     d \<in> set_xor (A ! nat i) (B ! nat i) \<and> d \<in> set_xor (A ! nat j) (B ! nat j)"
  by (simp add: candidates_def)

lemma covered_accept:
  assumes cov: "covered A B ts os"
    and di: "discard_at i d os = Inr os_i" and dj: "discard_at j d os_i = Inr os_j"
  shows "covered A B (ts @ [Transposition i j d]) os_j"
  unfolding covered_def
proof (intro allI impI)
  fix p e
  assume a: "0 \<le> p \<and> p < int (length A) \<and> p < int (length B)
             \<and> e \<in> set_xor (A ! nat p) (B ! nat p)"
  let ?ts = "ts @ [Transposition i j d]"
  from cov a have c: "claimed ts p e \<or> (\<exists>r. map_of os p = Some r \<and> e \<in> sim r)"
    unfolding covered_def by blast
  show "claimed ?ts p e \<or> (\<exists>r. map_of os_j p = Some r \<and> e \<in> sim r)"
  proof (cases "claimed ts p e \<or> (e = d \<and> (p = i \<or> p = j))")
    case True
    then show ?thesis by (auto simp: claimed_append)
  next
    case False
    with c obtain r where r: "map_of os p = Some r" "e \<in> sim r" by blast
    from False have ne: "e \<noteq> d \<or> (p \<noteq> i \<and> p \<noteq> j)" by blast
    have "\<exists>r'. map_of os_j p = Some r' \<and> e \<in> sim r'"
      unfolding map_of_discard_at[OF dj] map_of_discard_at[OF di]
      using r ne by auto
    then show ?thesis by blast
  qed
qed

lemma try_transposition_scan_inv:
  assumes inv: "scan_inv A B N st"
    and i: "0 \<le> i" "i < j" "j < int (length A)" "j < int (length B)"
    and d: "d \<in> candidates A B i j"
  shows "\<exists>st'. try_transposition i j d st = Inr st' \<and> scan_inv A B N st'"
proof -
  obtain ot ts os where st: "st = (ot, ts, os)" by (cases st)
  from inv have wf: "wf_options os" and rec: "recorded ot ts" and cov: "covered A B ts os"
    and tot: "total os + 2 * length ts = N"
    by (simp_all add: scan_inv_def st)
  show ?thesis
  proof (cases "overlaps_existing i j d ot \<or> has_substitutions i j d os")
    case True
    then have "try_transposition i j d st = Inr st"
      by (auto simp: try_transposition_def st)
    then show ?thesis using inv by simp
  next
    case False
    then have nc: "\<not> claimed ts i d" "\<not> claimed ts j d"
      using overlaps_existing_claimed[OF rec] by auto
    have "0 \<le> i \<and> i < int (length A) \<and> i < int (length B)
            \<and> d \<in> set_xor (A ! nat i) (B ! nat i)"
      using i candidates_set_xor[OF d] by auto
    then have "claimed ts i d \<or> (\<exists>r. map_of os i = Some r \<and> d \<in> sim r)"
      using cov unfolding covered_def by blast
    then obtain r_i where ri: "map_of os i = Some r_i" "d \<in> sim r_i"
      using nc by blast
    have "0 \<le> j \<and> j < int (length A) \<and> j < int (length B)
            \<and> d \<in> set_xor (A ! nat j) (B ! nat j)"
      using i candidates_set_xor[OF d] by auto
    then have "claimed ts j d \<or> (\<exists>r. map_of os j = Some r \<and> d \<in> sim r)"
      using cov unfolding covered_def by blast
    then obtain r_j where rj: "map_of os j = Some r_j" "d \<in> sim r_j"
      using nc by blast
    obtain os_i where di: "discard_at i d os = Inr os_i"
      using discard_at_ok[OF ri(1)] by blast
    have rj': "map_of os_i j = Some r_j"
      using rj(1) i(2) by (simp add: map_of_discard_at[OF di])
    obtain os_j where dj: "discard_at j d os_i = Inr os_j"
      using discard_at_ok[OF rj'] by blast
    let ?t = "Transposition i j d"
    let ?st' = "(record_position j ?t (record_position i ?t ot), ts @ [?t], os_j)"
    have run: "try_transposition i j d st = Inr ?st'"
      using False di dj by (simp add: try_transposition_def st Let_def)
    have wf': "wf_options os_j"
      using wf di dj wf_options_discard_at by blast
    have fi: "finite (sim r_i)" "finite (sim r_j)"
      using wf ri(1) rj(1) wf_options_map_of wf_diff_def by blast+
    have "total os_i + 1 = total os"
      using ri fi(1) di by (rule total_discard_at)
    moreover have "total os_j + 1 = total os_i"
      using rj' rj(2) fi(2) dj by (rule total_discard_at)
    ultimately have tot': "total os_j + 2 * length (ts @ [?t]) = N"
      using tot by simp
    have "scan_inv A B N ?st'"
      using wf' recorded_accept[OF rec] covered_accept[OF cov di dj] tot'
      by (simp add: scan_inv_def)
    then show ?thesis using run by blast
  qed
qed

subsection \<open>The records of optional\_set\_edits and the whole run\<close>

lemma optional_set_edits_alt:
  "optional_set_edits A B = concat (map position_edits (List.enumerate 0 (zip A B)))"
  by (simp add: optional_set_edits_def position_edits_def)

lemma position_edits_keys: "(p, r) \<in> set (position_edits (i, x)) \<Longrightarrow> p = int i"
  by (cases x) (auto simp: position_edits_def Let_def split: if_splits)

lemma position_edits_wf: "(p, r) \<in> set (position_edits (i, x)) \<Longrightarrow> wf_diff r"
  by (cases x) (auto simp: position_edits_def Let_def wf_diff_def set_xor_def card_gt_0_iff
      split: if_splits)

lemma position_edits_total:
  "total (position_edits (i, (a, b))) = card (set_xor a b)"
  by (simp add: position_edits_def Let_def total_def)

lemma total_append: "total (xs @ ys) = total xs + total ys"
  by (simp add: total_def)

lemma enumerate_edits_total:
  "total (concat (map position_edits (List.enumerate n xs)))
     = (\<Sum>(a_i, b_i)\<leftarrow>xs. card (set_xor a_i b_i))"
proof (induction xs arbitrary: n)
  case Nil
  then show ?case by (simp add: total_def)
next
  case (Cons x xs)
  obtain a b where x: "x = (a, b)" by (cases x)
  show ?case using Cons.IH[of "Suc n"]
    by (simp add: x total_append position_edits_total)
qed

lemma enumerate_edits_map_of:
  assumes "k < length xs" and "0 < card (set_xor (fst (xs ! k)) (snd (xs ! k)))"
  shows "map_of (concat (map position_edits (List.enumerate n xs))) (int (n + k))
           = Some (Difference (set_xor (fst (xs ! k)) (snd (xs ! k)))
                              (fst (xs ! k) - snd (xs ! k)) (snd (xs ! k) - fst (xs ! k)))"
  using assms
proof (induction xs arbitrary: n k)
  case Nil
  then show ?case by simp
next
  case (Cons x xs)
  obtain a b where x: "x = (a, b)" by (cases x)
  show ?case
  proof (cases k)
    case 0
    then show ?thesis using Cons.prems by (simp add: x position_edits_def Let_def)
  next
    case (Suc k')
    have "map_of (position_edits (n, x)) (int (n + k)) = None"
      using Suc by (auto simp: x position_edits_def Let_def)
    moreover have "map_of (concat (map position_edits (List.enumerate (Suc n) xs)))
                     (int (Suc n + k'))
           = Some (Difference (set_xor (fst (xs ! k')) (snd (xs ! k')))
                              (fst (xs ! k') - snd (xs ! k')) (snd (xs ! k') - fst (xs ! k')))"
      using Cons.prems Suc by (intro Cons.IH) auto
    ultimately show ?thesis
      using Suc by (simp add: map_add_def)
  qed
qed

lemma optional_set_edits_wf: "wf_options (optional_set_edits A B)"
  unfolding wf_options_def list_all_iff optional_set_edits_alt
  by (auto dest: position_edits_wf)

lemma optional_set_edits_total:
  "total (optional_set_edits A B) = (\<Sum>(a_i, b_i)\<leftarrow>zip A B. card (set_xor a_i b_i))"
  unfolding optional_set_edits_alt by (rule enumerate_edits_total)

lemma optional_set_edits_map_of:
  assumes "0 \<le> p" and "p < int (length A)" and "p < int (length B)"
    and "0 < card (set_xor (A ! nat p) (B ! nat p))"
  shows "map_of (optional_set_edits A B) p
           = Some (Difference (set_xor (A ! nat p) (B ! nat p))
                              (A ! nat p - B ! nat p) (B ! nat p - A ! nat p))"
proof -
  have k: "nat p < length (zip A B)" using assms by (simp add: nat_less_iff)
  have nth: "zip A B ! nat p = (A ! nat p, B ! nat p)" using k by simp
  show ?thesis
    unfolding optional_set_edits_alt
    using enumerate_edits_map_of[of "nat p" "zip A B" 0] k assms(1,4) by (simp add: nth)
qed

lemma optional_set_edits_covered:
  assumes "\<forall>s\<in>set A. finite s" and "\<forall>s\<in>set B. finite s"
  shows "covered A B [] (optional_set_edits A B)"
  unfolding covered_def
proof (intro allI impI)
  fix p d
  assume a: "0 \<le> p \<and> p < int (length A) \<and> p < int (length B)
             \<and> d \<in> set_xor (A ! nat p) (B ! nat p)"
  then have "finite (A ! nat p)" "finite (B ! nat p)"
    using assms by (auto simp: all_set_conv_all_nth)
  then have "finite (set_xor (A ! nat p) (B ! nat p))" by (simp add: set_xor_def)
  then have "0 < card (set_xor (A ! nat p) (B ! nat p))"
    using a by (auto simp: card_gt_0_iff)
  then have "map_of (optional_set_edits A B) p
           = Some (Difference (set_xor (A ! nat p) (B ! nat p))
                              (A ! nat p - B ! nat p) (B ! nat p - A ! nat p))"
    using a by (intro optional_set_edits_map_of) auto
  then show "claimed [] p d \<or> (\<exists>r. map_of (optional_set_edits A B) p = Some r \<and> d \<in> sim r)"
    using a by simp
qed

lemma scan_inv_init:
  assumes "\<forall>s\<in>set A. finite s" and "\<forall>s\<in>set B. finite s"
  shows "scan_inv A B (total (optional_set_edits A B)) (Map.empty, [], optional_set_edits A B)"
  using optional_set_edits_wf recorded_empty optional_set_edits_covered[OF assms]
  by (simp add: scan_inv_def)

lemma fold_construct:
  assumes "list_all wf_diff rs"
  shows "\<exists>adds subs. fold_err construct rs (adds0, subs0) = Inr (adds, subs)
           \<and> length adds + 2 * length subs
               = length adds0 + 2 * length subs0 + sum_list (map (\<lambda>r. card (sim r)) rs)"
  using assms
proof (induction rs arbitrary: adds0 subs0)
  case Nil
  then show ?case by simp
next
  case (Cons r rs)
  then have "wf_diff r" by simp
  then have "finite (a_b r)" "finite (b_a r)" "a_b r \<inter> b_a r = {}" "sim r = a_b r \<union> b_a r"
    by (auto simp: wf_diff_def)
  from matcher_counts[OF this] obtain added subs where
    m: "additions_substitutions_sets (sim r) (a_b r) (b_a r) = Inr (added, subs)"
    and c: "length added + 2 * length (substitution_list subs) = card (sim r)"
    by blast
  have step: "construct r (adds0, subs0) = Inr (adds0 @ added, subs0 @ substitution_list subs)"
    by (simp add: construct_def m)
  from Cons.prems have "list_all wf_diff rs" by simp
  from Cons.IH[OF this, of "adds0 @ added" "subs0 @ substitution_list subs"]
  show ?case using step c by auto
qed

lemma scan_find_transpositions:
  assumes len: "length A \<le> length B"
    and fin: "\<forall>s\<in>set A. finite s" "\<forall>s\<in>set B. finite s"
    and n: "\<forall>n\<in>set n_t. 2 \<le> n"
  shows "\<exists>ot ts os'. find_transpositions A B n_t (optional_set_edits A B) = Inr (ts, os')
           \<and> scan_inv A B (total (optional_set_edits A B)) (ot, ts, os')"
proof (rule find_transpositions_total)
  show "\<forall>n\<in>set n_t. 1 \<le> n" using n by auto
  show "length A \<le> length B" by (rule len)
  show "scan_inv A B (total (optional_set_edits A B)) (Map.empty, [], optional_set_edits A B)"
    using fin by (rule scan_inv_init)
next
  fix m i d t
  assume "m \<in> set n_t" "0 \<le> i" "i + (m - 1) < int (length A)"
    "d \<in> candidates A B i (i + (m - 1))"
    "scan_inv A B (total (optional_set_edits A B)) t"
  then show "\<exists>t'. try_transposition i (i + (m - 1)) d t = Inr t'
                 \<and> scan_inv A B (total (optional_set_edits A B)) t'"
    using n len by (intro try_transposition_scan_inv) auto
qed

lemma boundary_edit_distance_run:
  assumes len: "length A \<le> length B"
    and fin: "\<forall>s\<in>set A. finite s" "\<forall>s\<in>set B. finite s"
  shows "\<exists>adds subs ts ot os'.
           find_transpositions A B (range_py 2 (n_t + 1)) (optional_set_edits A B) = Inr (ts, os')
           \<and> scan_inv A B (total (optional_set_edits A B)) (ot, ts, os')
           \<and> boundary_edit_distance A B n_t = Inr (adds, subs, ts)
           \<and> length adds + 2 * length subs = total os'"
proof -
  have "\<forall>n\<in>set (range_py 2 (n_t + 1)). 2 \<le> n" by (simp add: set_range_py)
  from scan_find_transpositions[OF len fin this] obtain ot ts os' where
    f: "find_transpositions A B (range_py 2 (n_t + 1)) (optional_set_edits A B) = Inr (ts, os')"
    and inv: "scan_inv A B (total (optional_set_edits A B)) (ot, ts, os')"
    by blast
  from inv have "wf_options os'" by (simp add: scan_inv_def)
  then have "list_all wf_diff (map snd os')"
    by (auto simp: wf_options_def list_all_iff)
  from fold_construct[OF this, of "[]" "[]"] obtain adds subs where
    c: "fold_err construct (map snd os') ([], []) = Inr (adds, subs)"
    and n: "length adds + 2 * length subs = sum_list (map (\<lambda>r. card (sim r)) (map snd os'))"
    by auto
  have "sum_list (map (\<lambda>r. card (sim r)) (map snd os')) = total os'"
    by (simp add: total_def comp_def case_prod_unfold)
  moreover have "boundary_edit_distance A B n_t = Inr (adds, subs, ts)"
    by (simp add: boundary_edit_distance_def Let_def f c)
  ultimately show ?thesis using f inv n by auto
qed

lemma enumerate_sndD: "e \<in> set (List.enumerate n xs) \<Longrightarrow> snd e \<in> set xs"
  by (induction xs arbitrary: n) auto

lemma optional_set_edits_same: "optional_set_edits s s = []"
proof -
  have "position_edits e = []" if "e \<in> set (List.enumerate 0 (zip s s))" for e
  proof -
    obtain i a b where e: "e = (i, (a, b))" by (metis prod_cases3)
    from that have "snd e \<in> set (zip s s)"
      by (rule enumerate_sndD)
    then have "(a, b) \<in> set (zip s s)" unfolding e by simp
    then have "a = b" by (simp add: zip_same)
    then show ?thesis by (simp add: e position_edits_def set_xor_def)
  qed
  then show ?thesis
    unfolding optional_set_edits_alt by (simp)
qed

lemma try_transposition_span:
  assumes "try_transposition i j d (ot, ts, os) = Inr (ot', ts', os')"
    and "\<forall>t\<in>set ts. tr_end t - tr_start t + 1 \<in> S" and "j - i + 1 \<in> S"
  shows "\<forall>t\<in>set ts'. tr_end t - tr_start t + 1 \<in> S"
  using assms(1)
  by (cases rule: try_transposition_cases) (use assms(2,3) in auto)

lemma find_transpositions_span:
  assumes "find_transpositions A B n_t os = Inr (ts, os')"
  shows "\<forall>t\<in>set ts. tr_end t - tr_start t + 1 \<in> set n_t"
proof -
  let ?P = "\<lambda>st::ft_state. case st of (ot, ts, os) \<Rightarrow>
              \<forall>t\<in>set ts. tr_end t - tr_start t + 1 \<in> set n_t"
  have "\<exists>ot. ?P (ot, ts, os')"
    using assms
  proof (rule find_transpositions_inv[where P = ?P])
    show "?P (Map.empty, [], os)" by simp
  next
    fix n i j d t t'
    assume "n \<in> set n_t" "j = i + (n - 1)" "?P t" "try_transposition i j d t = Inr t'"
    then show "?P t'"
      using try_transposition_span[of i j d _ _ _ _ _ _ "set n_t"]
      by (cases t; cases t') auto
  qed
  then show ?thesis by simp
qed

lemma find_transpositions_no_scan:
  assumes "\<forall>n\<in>set n_t. int (length A) \<le> n - 1"
  shows "find_transpositions A B n_t os = Inr ([], os)"
proof -
  have "\<exists>st'. fold_err (scan_span A B) (sort n_t) (Map.empty, [], os) = Inr st'
          \<and> st' = (Map.empty, [], os)"
  proof (rule fold_err_total[where P = "\<lambda>st. st = (Map.empty, [], os)"])
    show "(Map.empty, [], os) = (Map.empty, [], os)" by simp
  next
    fix n and t :: ft_state
    assume "n \<in> set (sort n_t)" and t: "t = (Map.empty, [], os)"
    then have "int (length A) - (n - 1) \<le> 0" using assms by auto
    then have "range_py 0 (int (length A) - (n - 1)) = []"
      by (simp add: range_py_def)
    then show "\<exists>t'. scan_span A B n t = Inr t' \<and> t' = (Map.empty, [], os)"
      using t by (simp add: scan_span_def Let_def)
  qed
  then show ?thesis by (simp add: find_transpositions_def)
qed

subsection \<open>Strings of unequal length\<close>

lemma optional_set_edits_take:
  assumes "min (length A) (length B) \<le> m"
  shows "optional_set_edits (take m A) (take m B) = optional_set_edits A B"
proof -
  have "zip (take m A) (take m B) = take m (zip A B)" by (simp add: take_zip)
  also have "\<dots> = zip A B" using assms by simp
  finally show ?thesis by (simp add: optional_set_edits_def)
qed

lemma candidates_take_b:
  assumes "0 \<le> i" and "i < int (length A)" and "0 \<le> j" and "j < int (length A)"
  shows "candidates A (take (length A) B) i j = candidates A B i j"
  using assms by (simp add: candidates_def nat_less_iff)

lemma scan_span_take_b:
  assumes "length A \<le> length B" and "1 \<le> n"
  shows "scan_span A (take (length A) B) n st = scan_span A B n st"
  unfolding scan_span_def Let_def
proof (rule fold_err_cong)
  fix i and t :: ft_state
  assume "i \<in> set (range_py 0 (int (length A) - (n - 1)))"
  then have i: "0 \<le> i" "i + (n - 1) < int (length A)" by (auto simp: set_range_py)
  have l: "length (take (length A) B) = length A" using assms(1) by simp
  have "scan_position A (take (length A) B) (n - 1) i t
          = fold_err (try_transposition i (i + (n - 1)))
              (sorted_list_of_set (candidates A (take (length A) B) i (i + (n - 1)))) t"
    using i assms(2) l by (intro scan_position_eq) (auto simp only:)
  also have "candidates A (take (length A) B) i (i + (n - 1)) = candidates A B i (i + (n - 1))"
    using i assms(2) by (intro candidates_take_b) auto
  also have "fold_err (try_transposition i (i + (n - 1)))
              (sorted_list_of_set (candidates A B i (i + (n - 1)))) t
          = scan_position A B (n - 1) i t"
    using i assms by (intro scan_position_eq[symmetric]) auto
  finally show "scan_position A (take (length A) B) (n - 1) i t = scan_position A B (n - 1) i t" .
qed

lemma find_transpositions_take_b:
  assumes "length A \<le> length B" and "\<forall>n\<in>set n_t. 1 \<le> n"
  shows "find_transpositions A (take (length A) B) n_t os = find_transpositions A B n_t os"
proof -
  have "fold_err (scan_span A (take (length A) B)) (sort n_t) (Map.empty, [], os)
          = fold_err (scan_span A B) (sort n_t) (Map.empty, [], os)"
    using assms by (intro fold_err_cong scan_span_take_b) auto
  then show ?thesis by (simp add: find_transpositions_def)
qed

lemma boundary_edit_distance_take_b:
  assumes "length A \<le> length B"
  shows "boundary_edit_distance A (take (length A) B) n_t = boundary_edit_distance A B n_t"
proof -
  have "min (length A) (length B) \<le> length A" by simp
  from optional_set_edits_take[OF this]
  have o: "optional_set_edits A (take (length A) B) = optional_set_edits A B" by simp
  have f: "find_transpositions A (take (length A) B) (range_py 2 (n_t + 1)) os
             = find_transpositions A B (range_py 2 (n_t + 1)) os" for os
    using assms by (intro find_transpositions_take_b) (auto simp: set_range_py)
  show ?thesis by (simp add: boundary_edit_distance_def o f)
qed

lemma scan_position_index_error:
  assumes "0 \<le> i" and "0 \<le> n_i" and "i + n_i < int (length A)"
    and "int (length B) \<le> i + n_i"
  shows "scan_position A B n_i i st = Inl IndexError"
proof -
  have a: "getitem A i = Inr (A ! nat i)" "getitem A (i + n_i) = Inr (A ! nat (i + n_i))"
    using assms by (auto intro!: getitem_nth)
  have b: "getitem B (i + n_i) = Inl IndexError"
    using assms by (simp add: getitem_def Let_def)
  have "getitem B i = Inl IndexError \<or> (\<exists>x. getitem B i = Inr x)"
    by (simp add: getitem_def Let_def)
  then show ?thesis
    by (auto simp: scan_position_def Let_def a b)
qed

lemma fold_err_error:
  assumes "fold_err f pre s = Inr s1" and "f x s1 = Inl e"
  shows "fold_err f (pre @ x # post) s = Inl e"
  using assms by (simp add: fold_err_append)

lemma scan_inv_scan_position:
  assumes inv: "scan_inv A B N st"
    and i: "0 \<le> i" "1 \<le> n_i" "i + n_i < int (length A)" "i + n_i < int (length B)"
  shows "\<exists>st'. scan_position A B n_i i st = Inr st' \<and> scan_inv A B N st'"
  using i(1) _ i(3,4) inv
proof (rule scan_position_total)
  show "0 \<le> n_i" using i(2) by simp
next
  fix d t
  assume "d \<in> candidates A B i (i + n_i)" and "scan_inv A B N t"
  then show "\<exists>t'. try_transposition i (i + n_i) d t = Inr t' \<and> scan_inv A B N t'"
    using i by (intro try_transposition_scan_inv) auto
qed

lemma scan_span_index_error:
  assumes len: "length B < length A" "2 \<le> length A"
    and inv: "scan_inv A B N st"
  shows "scan_span A B 2 st = Inl IndexError"
proof -
  define k where "k = max 0 (int (length B) - 1)"
  have k: "0 \<le> k" "k \<le> int (length A) - 2" "int (length B) \<le> k + 1"
    using len by (auto simp: k_def)
  have split: "range_py 0 (int (length A) - 1) = [0..k - 1] @ k # [k + 1..int (length A) - 2]"
    unfolding range_py_def using upto_split3[of 0 k "int (length A) - 2"] k by simp
  have "\<exists>s1. fold_err (scan_position A B 1) [0..k - 1] st = Inr s1 \<and> scan_inv A B N s1"
    using inv
  proof (rule fold_err_total)
    fix i t
    assume "i \<in> set [0..k - 1]" and "scan_inv A B N t"
    then show "\<exists>t'. scan_position A B 1 i t = Inr t' \<and> scan_inv A B N t'"
      using k len by (intro scan_inv_scan_position) (auto simp: k_def)
  qed
  then obtain s1 where s1: "fold_err (scan_position A B 1) [0..k - 1] st = Inr s1" by blast
  have "scan_position A B 1 k s1 = Inl IndexError"
    using k by (intro scan_position_index_error) auto
  with s1 have "fold_err (scan_position A B 1) ([0..k - 1] @ k # [k + 1..int (length A) - 2]) st
                  = Inl IndexError"
    by (rule fold_err_error)
  then show ?thesis by (simp add: scan_span_def Let_def split)
qed

lemma boundary_edit_distance_index_error:
  assumes len: "length B < length A" "2 \<le> length A" and n: "2 \<le> n_t"
    and fin: "\<forall>s\<in>set A. finite s" "\<forall>s\<in>set B. finite s"
  shows "boundary_edit_distance A B n_t = Inl IndexError"
proof -
  have "sort (range_py 2 (n_t + 1)) = range_py 2 (n_t + 1)"
    by (simp add: range_py_def sorted_sort_id)
  also have "\<dots> = 2 # [3..n_t]"
    using n upto_rec1[of 2 n_t] by (simp add: range_py_def)
  finally have s: "sort (range_py 2 (n_t + 1)) = 2 # [3..n_t]" .
  have "scan_span A B 2 (Map.empty, [], optional_set_edits A B) = Inl IndexError"
    using len scan_inv_init[OF fin] by (rule scan_span_index_error)
  then have "find_transpositions A B (range_py 2 (n_t + 1)) (optional_set_edits A B)
               = Inl IndexError"
    by (simp add: find_transpositions_def s)
  then show ?thesis by (simp add: boundary_edit_distance_def)
qed

lemma boundary_edit_distance_no_scan:
  assumes "n_t < 2 \<or> length A < 2"
  shows "boundary_edit_distance A B n_t
           = (case fold_err construct (map snd (optional_set_edits A B)) ([], []) of
                Inl e \<Rightarrow> Inl e
              | Inr (additions, substitutions) \<Rightarrow> Inr (additions, substitutions, []))"
proof -
  have "\<forall>n\<in>set (range_py 2 (n_t + 1)). int (length A) \<le> n - 1"
    using assms by (auto simp: set_range_py)
  then have "find_transpositions A B (range_py 2 (n_t + 1)) (optional_set_edits A B)
               = Inr ([], optional_set_edits A B)"
    by (rule find_transpositions_no_scan)
  then show ?thesis by (simp add: boundary_edit_distance_def)
qed

lemma boundary_edit_distance_truncated:
  assumes "length A < length B \<or> n_t < 2 \<or> length A < 2"
    and fin: "\<forall>s\<in>set A. finite s" "\<forall>s\<in>set B. finite s"
  shows "boundary_edit_distance A B n_t
           = boundary_edit_distance (take (min (length A) (length B)) A)
                                    (take (min (length A) (length B)) B) n_t
         \<and> (\<exists>r. boundary_edit_distance A B n_t = Inr r)"
proof -
  let ?m = "min (length A) (length B)"
  have finA: "\<forall>s\<in>set (take ?m A). finite s" using fin(1) by (meson in_set_takeD)
  have finB: "\<forall>s\<in>set (take ?m B). finite s" using fin(2) by (meson in_set_takeD)
  have "length (take ?m A) \<le> length (take ?m B)" by simp
  from boundary_edit_distance_run[OF this finA finB, of n_t]
  have ok: "\<exists>r. boundary_edit_distance (take ?m A) (take ?m B) n_t = Inr r" by blast
  have eq: "boundary_edit_distance A B n_t = boundary_edit_distance (take ?m A) (take ?m B) n_t"
  proof (cases "length A < length B")
    case True
    then have "?m = length A" by simp
    then show ?thesis using boundary_edit_distance_take_b[of A B n_t] True by simp
  next
    case False
    then have c: "n_t < 2 \<or> length A < 2" using assms(1) by blast
    then have c': "n_t < 2 \<or> length (take ?m A) < 2" by auto
    have "optional_set_edits (take ?m A) (take ?m B) = optional_set_edits A B"
      by (rule optional_set_edits_take) simp
    then show ?thesis
      unfolding boundary_edit_distance_no_scan[OF c] boundary_edit_distance_no_scan[OF c']
      by simp
  qed
  then show ?thesis using ok by simp
qed

subsection \<open>The scan as one loop over the candidates\<close>









subsection \<open>A label shifted by one position\<close>

lemma try_transposition_scan_inv_cases:
  assumes inv: "scan_inv A B N (ot, ts, os)"
    and i: "0 \<le> i" "i < j" "j < int (length A)" "j < int (length B)"
    and d: "d \<in> candidates A B i j"
  obtains (rejected) "try_transposition i j d (ot, ts, os) = Inr (ot, ts, os)"
      and "overlaps_existing i j d ot \<or> has_substitutions i j d os"
  | (accepted) ot' os_i os_j where
      "try_transposition i j d (ot, ts, os) = Inr (ot', ts @ [Transposition i j d], os_j)"
      and "scan_inv A B N (ot', ts @ [Transposition i j d], os_j)"
      and "\<not> overlaps_existing i j d ot" and "\<not> has_substitutions i j d os"
      and "discard_at i d os = Inr os_i" and "discard_at j d os_i = Inr os_j"
proof -
  from try_transposition_scan_inv[OF inv i d] obtain st' where
    run: "try_transposition i j d (ot, ts, os) = Inr st'" and inv': "scan_inv A B N st'"
    by blast
  from run show thesis
  proof (cases rule: try_transposition_cases)
    case rejected
    then show ?thesis using run that(1) by simp
  next
    case (accepted os_i os_j)
    then show ?thesis using run inv' that(2) by simp
  qed
qed

lemma sim_subset_discard:
  assumes "discard_at i d os = Inr os'" and "\<forall>r. map_of os p = Some r \<longrightarrow> sim r \<subseteq> S"
  shows "\<forall>r. map_of os' p = Some r \<longrightarrow> sim r \<subseteq> S"
  using assms(2) by (auto simp: map_of_discard_at[OF assms(1)] split: if_splits)

lemma empty_record_discard:
  assumes "discard_at i d os = Inr os'" and "map_of os p = Some (Difference {} {} {})"
  shows "map_of os' p = Some (Difference {} {} {})"
  using assms(2) by (auto simp: map_of_discard_at[OF assms(1)])

lemma before_inv_step:
  assumes inv: "before_inv A B N k l st"
    and p: "0 \<le> p" "p < k" "p + 1 < int (length A)" "p + 1 < int (length B)"
    and d: "d \<in> candidates A B p (p + 1)"
    and nc: "l \<notin> candidates A B (k - 1) k"
  shows "\<exists>st'. try_transposition p (p + 1) d st = Inr st' \<and> before_inv A B N k l st'"
proof -
  obtain ot ts os where st: "st = (ot, ts, os)" by (cases st)
  from inv have sinv: "scan_inv A B N (ot, ts, os)"
    and sk: "\<forall>r. map_of os k = Some r \<longrightarrow> sim r \<subseteq> {l}"
    and sk1: "\<forall>r. map_of os (k + 1) = Some r \<longrightarrow> sim r \<subseteq> {l}"
    and tsi: "\<forall>t\<in>set ts. 0 \<le> tr_start t \<and> tr_start t < k \<and> tr_end t = tr_start t + 1
            \<and> tr_type t \<in> candidates A B (tr_start t) (tr_start t + 1)"
    unfolding before_inv_def st by blast+
  have pj: "p < p + 1" by simp
  from sinv p(1) pj p(3,4) d show ?thesis
  proof (cases rule: try_transposition_scan_inv_cases)
    case rejected
    then show ?thesis using inv st by auto
  next
    case (accepted ot' os_i os_j)
    have "\<forall>r. map_of os_j k = Some r \<longrightarrow> sim r \<subseteq> {l}"
      using sim_subset_discard[OF accepted(6) sim_subset_discard[OF accepted(5) sk]] .
    moreover have "\<forall>r. map_of os_j (k + 1) = Some r \<longrightarrow> sim r \<subseteq> {l}"
      using sim_subset_discard[OF accepted(6) sim_subset_discard[OF accepted(5) sk1]] .
    ultimately have "before_inv A B N k l (ot', ts @ [Transposition p (p + 1) d], os_j)"
      using accepted(2) tsi p d by (auto simp: before_inv_def)
    then show ?thesis using accepted(1) st by auto
  qed
qed

lemma after_inv_step:
  assumes inv: "after_inv A B N k l st"
    and p: "k < p" "0 \<le> k" "p + 1 < int (length A)" "p + 1 < int (length B)"
    and d: "d \<in> candidates A B p (p + 1)"
  shows "\<exists>st'. try_transposition p (p + 1) d st = Inr st' \<and> after_inv A B N k l st'"
proof -
  obtain ot ts os where st: "st = (ot, ts, os)" by (cases st)
  from inv have sinv: "scan_inv A B N (ot, ts, os)"
    and cnt: "count_list ts (Transposition k (k + 1) l) = 1"
    and ek: "map_of os k = Some (Difference {} {} {})"
    and ek1: "map_of os (k + 1) = Some (Difference {} {} {})"
    by (simp_all add: after_inv_def st)
  have pj: "p < p + 1" and p0: "0 \<le> p" using p by simp_all
  from sinv p0 pj p(3,4) d show ?thesis
  proof (cases rule: try_transposition_scan_inv_cases)
    case rejected
    then show ?thesis using inv st by auto
  next
    case (accepted ot' os_i os_j)
    have "map_of os_j k = Some (Difference {} {} {})"
      using empty_record_discard[OF accepted(6) empty_record_discard[OF accepted(5) ek]] .
    moreover have "map_of os_j (k + 1) = Some (Difference {} {} {})"
      using empty_record_discard[OF accepted(6) empty_record_discard[OF accepted(5) ek1]] .
    moreover have "count_list (ts @ [Transposition p (p + 1) d]) (Transposition k (k + 1) l) = 1"
      using cnt p(1) by simp
    ultimately have "after_inv A B N k l (ot', ts @ [Transposition p (p + 1) d], os_j)"
      using accepted(2) by (simp add: after_inv_def)
    then show ?thesis using accepted(1) st by auto
  qed
qed


lemma wf_diff_single:
  assumes "wf_diff r" and "sim r \<subseteq> {l}"
  shows "min (card (a_b r)) (card (b_a r)) = 0"
    and "Difference (sim r - {l}) (a_b r - {l}) (b_a r - {l}) = Difference {} {} {}"
proof -
  from assms have s: "a_b r \<subseteq> {l}" "b_a r \<subseteq> {l}" and dj: "a_b r \<inter> b_a r = {}"
    by (auto simp: wf_diff_def)
  then have "a_b r = {} \<or> b_a r = {}" by blast
  then show "min (card (a_b r)) (card (b_a r)) = 0" by auto
  show "Difference (sim r - {l}) (a_b r - {l}) (b_a r - {l}) = Difference {} {} {}"
    using s assms(2) by auto
qed

lemma before_inv_accepts:
  assumes inv: "before_inv A B N k l (ot, ts, os)"
    and k: "0 \<le> k" "k + 1 < int (length A)" "k + 1 < int (length B)"
    and ck: "l \<in> candidates A B k (k + 1)"
    and nc: "l \<notin> candidates A B (k - 1) k"
  shows "\<exists>st'. try_transposition k (k + 1) l (ot, ts, os) = Inr st' \<and> after_inv A B N k l st'"
proof -
  from inv have sinv: "scan_inv A B N (ot, ts, os)"
    and sk: "\<forall>r. map_of os k = Some r \<longrightarrow> sim r \<subseteq> {l}"
    and sk1: "\<forall>r. map_of os (k + 1) = Some r \<longrightarrow> sim r \<subseteq> {l}"
    and tsi: "\<forall>t\<in>set ts. 0 \<le> tr_start t \<and> tr_start t < k \<and> tr_end t = tr_start t + 1
            \<and> tr_type t \<in> candidates A B (tr_start t) (tr_start t + 1)"
    unfolding before_inv_def by blast+
  from sinv have wf: "wf_options os" and rec: "recorded ot ts"
    by (simp_all add: scan_inv_def)
  have no_overlap: "\<not> overlaps_existing k (k + 1) l ot"
  proof
    assume "overlaps_existing k (k + 1) l ot"
    then obtain t where t: "t \<in> set ts" "tr_type t = l"
      "tr_start t = k \<or> tr_end t = k \<or> tr_start t = k + 1 \<or> tr_end t = k + 1"
      unfolding overlaps_existing_claimed[OF rec] by (auto simp: claimed_def list_ex_iff)
    with tsi have f: "tr_start t < k" "tr_end t = tr_start t + 1"
      "l \<in> candidates A B (tr_start t) (tr_start t + 1)"
      by auto
    with t(3) have "tr_start t = k - 1" by auto
    with f(3) nc show False by simp
  qed
  have no_subs: "\<not> has_substitutions k (k + 1) l os"
  proof
    assume "has_substitutions k (k + 1) l os"
    then obtain r_i where r: "map_of os k = Some r_i" "0 < min (card (a_b r_i)) (card (b_a r_i))"
      unfolding has_substitutions_min[OF wf] by blast
    have "wf_diff r_i" using wf r(1) by (rule wf_options_map_of)
    moreover have "sim r_i \<subseteq> {l}" using sk r(1) by blast
    ultimately have "min (card (a_b r_i)) (card (b_a r_i)) = 0" by (rule wf_diff_single)
    with r(2) show False by simp
  qed
  have kj: "k < k + 1" by simp
  from sinv k(1) kj k(2,3) ck show ?thesis
  proof (cases rule: try_transposition_scan_inv_cases)
    case rejected
    then show ?thesis using no_overlap no_subs by blast
  next
    case (accepted ot' os_i os_j)
    from accepted(5) obtain r_k where rk: "map_of os k = Some r_k"
      by (auto simp: discard_at_def split: option.splits)
    from accepted(6) obtain r_j where rj: "map_of os_i (k + 1) = Some r_j"
      by (auto simp: discard_at_def split: option.splits)
    then have rj0: "map_of os (k + 1) = Some r_j"
      by (simp add: map_of_discard_at[OF accepted(5)])
    have wk: "wf_diff r_k" "sim r_k \<subseteq> {l}" using wf rk sk wf_options_map_of by blast+
    have wj: "wf_diff r_j" "sim r_j \<subseteq> {l}" using wf rj0 sk1 wf_options_map_of by blast+
    have "map_of os_i k = Some (Difference {} {} {})"
      using rk wf_diff_single(2)[OF wk] by (simp add: map_of_discard_at[OF accepted(5)])
    then have e1: "map_of os_j k = Some (Difference {} {} {})"
      using accepted(6) by (rule empty_record_discard[rotated])
    have e2: "map_of os_j (k + 1) = Some (Difference {} {} {})"
      using rj wf_diff_single(2)[OF wj] by (simp add: map_of_discard_at[OF accepted(6)])
    have "Transposition k (k + 1) l \<notin> set ts" using tsi by force
    then have "count_list ts (Transposition k (k + 1) l) = 0" by simp
    then have "count_list (ts @ [Transposition k (k + 1) l]) (Transposition k (k + 1) l) = 1"
      by simp
    then have "after_inv A B N k l (ot', ts @ [Transposition k (k + 1) l], os_j)"
      using accepted(2) e1 e2 by (simp add: after_inv_def)
    then show ?thesis using accepted(1) by blast
  qed
qed


lemma pure_transposition_scan:
  assumes len: "length A = length B"
    and fin: "\<forall>s\<in>set A. finite s" "\<forall>s\<in>set B. finite s"
    and i: "Suc i < length A"
    and xi: "set_xor (A ! i) (B ! i) = {l}" and xj: "set_xor (A ! Suc i) (B ! Suc i) = {l}"
    and ai: "l \<in> A ! i" and bj: "l \<in> B ! Suc i"
    and prev: "i = 0 \<or> l \<notin> B ! (i - 1) \<or> l \<in> A ! (i - 1)"
  shows "\<exists>ot ts os'.
           find_transpositions A B (range_py 2 3) (optional_set_edits A B) = Inr (ts, os')
           \<and> after_inv A B (total (optional_set_edits A B)) (int i) l (ot, ts, os')"
proof -
  define k where "k = int i"
  define N where "N = total (optional_set_edits A B)"
  let ?ose = "optional_set_edits A B"
  have k: "0 \<le> k" "k + 1 < int (length A)" "k + 1 < int (length B)"
    using i len by (simp_all add: k_def)
  have nk: "nat k = i" "nat (k + 1) = Suc i" by (simp_all add: k_def)
  have bi: "l \<notin> B ! i" using xi ai by (auto simp: set_xor_def)
  have aj: "l \<notin> A ! Suc i" using xj bj by (auto simp: set_xor_def)
  have ck: "candidates A B k (k + 1) = {l}"
    unfolding candidates_def nk using xi xj ai bi aj bj by (auto simp: set_xor_def)
  have nc: "l \<notin> candidates A B (k - 1) k"
  proof (cases "i = 0")
    case True
    then have "nat (k - 1) = nat k" by (simp add: k_def)
    then show ?thesis by (simp add: candidates_def set_xor_def)
  next
    case False
    then have "nat (k - 1) = i - 1" by (simp add: k_def)
    then show ?thesis
      unfolding candidates_def nk using False prev ai bi by (auto simp: set_xor_def)
  qed
  have rk: "map_of ?ose k = Some (Difference (set_xor (A ! nat k) (B ! nat k))
                                (A ! nat k - B ! nat k) (B ! nat k - A ! nat k))"
    using k by (intro optional_set_edits_map_of) (auto simp: nk xi)
  have rk1: "map_of ?ose (k + 1)
               = Some (Difference (set_xor (A ! nat (k + 1)) (B ! nat (k + 1)))
                         (A ! nat (k + 1) - B ! nat (k + 1)) (B ! nat (k + 1) - A ! nat (k + 1)))"
    using k by (intro optional_set_edits_map_of) (auto simp: nk xj)
  have init: "before_inv A B N k l (Map.empty, [], ?ose)"
    using scan_inv_init[OF fin] rk rk1 by (simp add: before_inv_def N_def nk xi xj)
  have "\<exists>st1. fold_err (scan_position A B 1) [0..k - 1] (Map.empty, [], ?ose) = Inr st1
          \<and> before_inv A B N k l st1"
    using init
  proof (rule fold_err_total)
    fix p t
    assume p: "p \<in> set [0..k - 1]" and t: "before_inv A B N k l t"
    then have p': "0 \<le> p" "p < k" "p + 1 < int (length A)" "p + 1 < int (length B)"
      using k by auto
    show "\<exists>t'. scan_position A B 1 p t = Inr t' \<and> before_inv A B N k l t'"
      using p'(1) _ p'(3,4) t
    proof (rule scan_position_total)
      show "(0::int) \<le> 1" by simp
    next
      fix d u
      assume "d \<in> candidates A B p (p + 1)" and "before_inv A B N k l u"
      then show "\<exists>t'. try_transposition p (p + 1) d u = Inr t' \<and> before_inv A B N k l t'"
        using p' nc by (intro before_inv_step) auto
    qed
  qed
  then obtain st1 where
    f1: "fold_err (scan_position A B 1) [0..k - 1] (Map.empty, [], ?ose) = Inr st1"
    and b1: "before_inv A B N k l st1"
    by blast
  obtain ot1 ts1 os1 where st1: "st1 = (ot1, ts1, os1)" by (cases st1)
  have "scan_position A B 1 k st1 = fold_err (try_transposition k (k + 1))
                                       (sorted_list_of_set (candidates A B k (k + 1))) st1"
    using k by (intro scan_position_eq) auto
  then have sp: "scan_position A B 1 k st1
                   = (case try_transposition k (k + 1) l st1 of Inl e \<Rightarrow> Inl e | Inr s \<Rightarrow> Inr s)"
    by (simp add: ck split: sum.splits)
  have "l \<in> candidates A B k (k + 1)" by (simp add: ck)
  from before_inv_accepts[OF b1[unfolded st1] k this nc]
  obtain st2 where t2: "try_transposition k (k + 1) l st1 = Inr st2"
    and a2: "after_inv A B N k l st2"
    unfolding st1 by blast
  have f2: "scan_position A B 1 k st1 = Inr st2"
    unfolding sp t2 by simp
  have "\<exists>st3. fold_err (scan_position A B 1) [k + 1..int (length A) - 2] st2 = Inr st3
          \<and> after_inv A B N k l st3"
    using a2
  proof (rule fold_err_total)
    fix p t
    assume p: "p \<in> set [k + 1..int (length A) - 2]" and t: "after_inv A B N k l t"
    then have p': "0 \<le> p" "k < p" "p + 1 < int (length A)" "p + 1 < int (length B)"
      using k len by auto
    show "\<exists>t'. scan_position A B 1 p t = Inr t' \<and> after_inv A B N k l t'"
      using p'(1) _ p'(3,4) t
    proof (rule scan_position_total)
      show "(0::int) \<le> 1" by simp
    next
      fix d u
      assume "d \<in> candidates A B p (p + 1)" and "after_inv A B N k l u"
      then show "\<exists>t'. try_transposition p (p + 1) d u = Inr t' \<and> after_inv A B N k l t'"
        using p' k by (intro after_inv_step) auto
    qed
  qed
  then obtain st3 where
    f3: "fold_err (scan_position A B 1) [k + 1..int (length A) - 2] st2 = Inr st3"
    and a3: "after_inv A B N k l st3"
    by blast
  have split: "range_py 0 (int (length A) - (2 - 1))
                 = [0..k - 1] @ k # [k + 1..int (length A) - 2]"
    unfolding range_py_def using upto_split3[of 0 k "int (length A) - 2"] k by simp
  have "scan_span A B 2 (Map.empty, [], ?ose) = Inr st3"
    unfolding scan_span_def Let_def split by (simp add: fold_err_append f1 f2 f3)
  moreover have "sort (range_py 2 3) = [2]" by (simp add: range_py_def upto_rec1)
  ultimately have "fold_err (scan_span A B) (sort (range_py 2 3)) (Map.empty, [], ?ose) = Inr st3"
    by simp
  moreover obtain ot3 ts3 os3 where st3: "st3 = (ot3, ts3, os3)" by (cases st3)
  ultimately have "find_transpositions A B (range_py 2 3) ?ose = Inr (ts3, os3)"
    by (simp add: find_transpositions_def)
  then show ?thesis using a3 unfolding st3 N_def k_def by blast
qed




section \<open>The claims\<close>



text \<open>
  C2. The claim that strings of unequal length make \<open>boundary_edit_distance\<close> fail at
  once with a length-mismatch error does not hold: \<open>optional_set_edits\<close> has no failure
  and pairs the positions with \<open>zip\<close>, which stops at the shorter string. Here a second
  string with one more position is accepted and its last position ignored.
\<close>

theorem unequal_length_counterexample:
  "length [{1 :: int}] \<noteq> length [{2}, {3 :: int}]
   \<and> optional_set_edits [{1}] [{2}, {3}] = [(0, Difference {1, 2} {1} {2})]
   \<and> boundary_edit_distance [{1}] [{2}, {3}] 2 = Inr ([], [Substitution 1 2], [])"
  by code_simp

text \<open>
  C2, as the code has it. For strings of unequal length (of finite label sets),
  \<open>optional_set_edits\<close> gives the records of the two strings cut to the shorter length.
  \<open>boundary_edit_distance\<close> fails, with the IndexError of an out-of-range read in
  \<open>find_transpositions\<close>, exactly when \<open>boundary_string_a\<close> is the longer string, has
  at least two positions and \<open>n_t \<ge> 2\<close>; in every other case it returns the
  decomposition of the two strings cut to the shorter length. Nothing is padded.
\<close>

theorem unequal_length_behaviour:
  assumes "length A \<noteq> length B" and "\<forall>s\<in>set A. finite s" and "\<forall>s\<in>set B. finite s"
  shows "optional_set_edits A B
           = optional_set_edits (take (min (length A) (length B)) A)
                                (take (min (length A) (length B)) B)
         \<and> (length B < length A \<and> 2 \<le> length A \<and> 2 \<le> n_t
              \<longrightarrow> boundary_edit_distance A B n_t = Inl IndexError)
         \<and> (\<not> (length B < length A \<and> 2 \<le> length A \<and> 2 \<le> n_t)
              \<longrightarrow> (\<exists>r. boundary_edit_distance A B n_t = Inr r)
                  \<and> boundary_edit_distance A B n_t
                      = boundary_edit_distance (take (min (length A) (length B)) A)
                                               (take (min (length A) (length B)) B) n_t)"
proof (intro conjI impI)
  show "optional_set_edits A B
           = optional_set_edits (take (min (length A) (length B)) A)
                                (take (min (length A) (length B)) B)"
    by (rule optional_set_edits_take[symmetric]) simp
next
  assume "length B < length A \<and> 2 \<le> length A \<and> 2 \<le> n_t"
  then show "boundary_edit_distance A B n_t = Inl IndexError"
    using assms(2,3) by (intro boundary_edit_distance_index_error) auto
next
  assume "\<not> (length B < length A \<and> 2 \<le> length A \<and> 2 \<le> n_t)"
  then have c: "length A < length B \<or> n_t < 2 \<or> length A < 2"
    using assms(1) by linarith
  note tr = boundary_edit_distance_truncated[OF c assms(2,3)]
  show "\<exists>r. boundary_edit_distance A B n_t = Inr r"
    using tr by (rule conjunct2)
  show "boundary_edit_distance A B n_t
           = boundary_edit_distance (take (min (length A) (length B)) A)
                                    (take (min (length A) (length B)) B) n_t"
    using tr by (rule conjunct1)
qed

theorem unequal_length_behaviour_witness:
  "length [{1}, {2}, {3 :: int}] \<noteq> length [{1}, {2 :: int}]
   \<and> boundary_edit_distance [{1}, {2}, {3}] [{1}, {2}] 2 = Inl IndexError
   \<and> length [{1 :: int}] \<noteq> length [{2}, {3 :: int}]
   \<and> boundary_edit_distance [{1}] [{2}, {3}] 2
        = boundary_edit_distance (take (min (length [{1 :: int}]) (length [{2}, {3 :: int}])) [{1}])
            (take (min (length [{1 :: int}]) (length [{2}, {3 :: int}])) [{2}, {3}]) 2"
proof -
  have l1: "length [{1}, {2}, {3 :: int}] \<noteq> length [{1}, {2 :: int}]" by simp
  have f1: "\<forall>s\<in>set [{1}, {2}, {3 :: int}]. finite s" and f2: "\<forall>s\<in>set [{1}, {2 :: int}]. finite s"
    by simp_all
  have l2: "length [{1 :: int}] \<noteq> length [{2}, {3 :: int}]" by simp
  have g1: "\<forall>s\<in>set [{1 :: int}]. finite s" and g2: "\<forall>s\<in>set [{2}, {3 :: int}]. finite s"
    by simp_all
  have e: "boundary_edit_distance [{1}, {2}, {3}] [{1}, {2}] 2 = Inl IndexError"
    using unequal_length_behaviour[OF l1 f1 f2, of 2] by simp
  have t: "boundary_edit_distance [{1}] [{2}, {3}] 2
        = boundary_edit_distance (take (min (length [{1 :: int}]) (length [{2}, {3 :: int}])) [{1}])
            (take (min (length [{1 :: int}]) (length [{2}, {3 :: int}])) [{2}, {3}]) 2"
    using unequal_length_behaviour[OF l2 g1 g2, of 2] by simp
  show ?thesis by (intro conjI l1 e l2 t)
qed

text \<open>
  C3. For finite disjoint \<open>a\<close> and \<open>b\<close> with \<open>d = a \<union> b\<close>,
  \<open>additions_substitutions_sets\<close> returns \<open>min |a| |b|\<close> substitution pairs that form a
  maximal pairing of \<open>a\<close> against \<open>b\<close> whose sum of absolute distances is least among
  all maximal pairings, and the additions are exactly the unpaired labels, each once and
  tagged with its side. For \<open>a = {2,3,4}\<close>, \<open>b = {6}\<close> the result is
  \<open>[(2,'a'), (3,'a')]\<close> and \<open>{(4,6)}\<close>.
\<close>

theorem matcher_minimal_pairing:
  assumes "finite a" and "finite b" and "a \<inter> b = {}" and "d = a \<union> b"
  shows "(\<exists>added P. additions_substitutions_sets d a b
                       = Inr (added, (\<lambda>(x, y). Substitution x y) ` P)
            \<and> pairing a b P
            \<and> card ((\<lambda>(x, y). Substitution x y) ` P) = min (card a) (card b)
            \<and> (\<forall>Q. pairing a b Q \<longrightarrow> current_delta P \<le> current_delta Q)
            \<and> distinct added
            \<and> set added = (\<lambda>x. Addition x ''a'') ` (a - fst ` P)
                           \<union> (\<lambda>x. Addition x ''b'') ` (b - snd ` P))
         \<and> additions_substitutions_sets {2, 3, 4, 6} {2, 3, 4} {6}
             = Inr ([Addition 2 ''a'', Addition 3 ''a''], {Substitution 4 6})"
proof
  let ?P = "best_pairing a b"
  let ?added = "map (\<lambda>x. Addition x ''a'') (sorted_list_of_set (a - fst ` ?P))
                @ map (\<lambda>x. Addition x ''b'') (sorted_list_of_set (b - snd ` ?P))"
  have P: "pairing a b ?P" using assms(1,2) by (rule best_pairing_pairing)
  have inj: "inj_on (\<lambda>(x, y). Substitution x y) ?P" by (auto simp: inj_on_def)
  have "card ((\<lambda>(x, y). Substitution x y) ` ?P) = card ?P" using inj by (rule card_image)
  then have c: "card ((\<lambda>(x, y). Substitution x y) ` ?P) = min (card a) (card b)"
    using P by (simp add: pairing_def)
  have m: "\<forall>Q. pairing a b Q \<longrightarrow> current_delta ?P \<le> current_delta Q"
    using best_pairing_minimal[OF assms(1,2)] by blast
  have dist: "distinct ?added"
    by (auto simp: distinct_map inj_on_def)
  have st: "set ?added = (\<lambda>x. Addition x ''a'') ` (a - fst ` ?P)
                           \<union> (\<lambda>x. Addition x ''b'') ` (b - snd ` ?P)"
    using assms(1,2) by simp
  have r: "additions_substitutions_sets d a b = Inr (?added, (\<lambda>(x, y). Substitution x y) ` ?P)"
    using assms by (rule additions_substitutions_sets_eq)
  show "\<exists>added P. additions_substitutions_sets d a b
                       = Inr (added, (\<lambda>(x, y). Substitution x y) ` P)
            \<and> pairing a b P
            \<and> card ((\<lambda>(x, y). Substitution x y) ` P) = min (card a) (card b)
            \<and> (\<forall>Q. pairing a b Q \<longrightarrow> current_delta P \<le> current_delta Q)
            \<and> distinct added
            \<and> set added = (\<lambda>x. Addition x ''a'') ` (a - fst ` P)
                           \<union> (\<lambda>x. Addition x ''b'') ` (b - snd ` P)"
    by (rule exI[of _ ?added], rule exI[of _ ?P]) (intro conjI r P c m dist st)
next
  show "additions_substitutions_sets {2, 3, 4, 6} {2, 3, 4} {6}
             = Inr ([Addition 2 ''a'', Addition 3 ''a''], {Substitution 4 6})"
    by code_simp
qed

theorem matcher_minimal_pairing_witness:
  "finite {2, 3, 4 :: int} \<and> finite {6 :: int} \<and> {2, 3, 4} \<inter> {6 :: int} = {}
   \<and> (\<exists>added P. additions_substitutions_sets {2, 3, 4, 6} {2, 3, 4} {6}
                       = Inr (added, (\<lambda>(x, y). Substitution x y) ` P)
          \<and> pairing {2, 3, 4} {6} P
          \<and> card ((\<lambda>(x, y). Substitution x y) ` P) = min (card {2, 3, 4 :: int}) (card {6 :: int})
          \<and> (\<forall>Q. pairing {2, 3, 4} {6} Q \<longrightarrow> current_delta P \<le> current_delta Q)
          \<and> distinct added
          \<and> set added = (\<lambda>x. Addition x ''a'') ` ({2, 3, 4} - fst ` P)
                         \<union> (\<lambda>x. Addition x ''b'') ` ({6} - snd ` P))"
proof -
  have h: "{2, 3, 4, 6} = {2, 3, 4} \<union> {6 :: int}" by auto
  have k: "{2, 3, 4} \<inter> {6 :: int} = {}" by simp
  have f1: "finite {2, 3, 4 :: int}" and f2: "finite {6 :: int}" by simp_all
  note g = matcher_minimal_pairing[OF f1 f2 k h, THEN conjunct1]
  show ?thesis by (intro conjI f1 f2 k g)
qed

text \<open>
  C4. The claim that a label present in A at \<open>i\<close> and in B at \<open>i + 1\<close> only, with no
  other disagreement at the two positions, always gives the transposition
  \<open>(i, i + 1, label)\<close> and no addition of the label does not hold: the scan is greedy, and
  when the same label is also shifted between \<open>i - 1\<close> and \<open>i\<close> that earlier pair wins.
  Here the label 1 at positions 1 and 2 is left with the transposition \<open>(0, 1, 1)\<close> and
  an addition.
\<close>

theorem pure_transposition_counterexample:
  "length [{}, {1}, {} :: int set] = length [{1}, {}, {1 :: int}]
   \<and> (1::int) \<in> [{}, {1}, {}] ! 1 \<and> (1::int) \<in> [{1}, {}, {1}] ! 2
   \<and> (1::int) \<notin> [{}, {1}, {}] ! 2 \<and> (1::int) \<notin> [{1}, {}, {1}] ! 1
   \<and> set_xor ([{}, {1}, {}] ! 1) ([{1}, {}, {1}] ! 1) = {1}
   \<and> set_xor ([{}, {1}, {}] ! 2) ([{1}, {}, {1}] ! 2) = {1}
   \<and> boundary_edit_distance [{}, {1}, {}] [{1}, {}, {1}] 2
       = Inr ([Addition 1 ''b''], [], [Transposition 0 1 1])
   \<and> Transposition 1 2 1 \<notin> set [Transposition 0 1 1]
   \<and> add_type (Addition 1 ''b'') = 1"
proof -
  have "boundary_edit_distance [{}, {1}, {}] [{1}, {}, {1}] 2
       = Inr ([Addition 1 ''b''], [], [Transposition 0 1 1])"
    by code_simp
  then show ?thesis by (simp add: set_xor_def)
qed

text \<open>
  C4, as the code has it. For equal-length strings (of finite label sets) with the label
  in A at \<open>i\<close> and in B at \<open>i + 1\<close>, absent from A at \<open>i + 1\<close> and from B at \<open>i\<close>, no
  other disagreement at the two positions, and the label not also shifted from B at
  \<open>i - 1\<close> to A at \<open>i\<close> (\<open>i = 0\<close>, or the label absent from B or present in A at
  \<open>i - 1\<close>): with \<open>n_t = 2\<close> the transposition \<open>(i, i + 1, label)\<close> is returned exactly
  once, and the records of the two positions are left empty, so that the matcher
  produces no addition and no substitution for these two positions.
\<close>

theorem pure_transposition:
  assumes "length A = length B" and "\<forall>s\<in>set A. finite s" and "\<forall>s\<in>set B. finite s"
    and "Suc i < length A"
    and "l \<in> A ! i" and "l \<in> B ! Suc i" and "l \<notin> A ! Suc i" and "l \<notin> B ! i"
    and "set_xor (A ! i) (B ! i) = {l}" and "set_xor (A ! Suc i) (B ! Suc i) = {l}"
    and "i = 0 \<or> l \<notin> B ! (i - 1) \<or> l \<in> A ! (i - 1)"
  shows "\<exists>adds subs ts os'.
           boundary_edit_distance A B 2 = Inr (adds, subs, ts)
           \<and> find_transpositions A B (range_py 2 3) (optional_set_edits A B) = Inr (ts, os')
           \<and> count_list ts (Transposition (int i) (int i + 1) l) = 1
           \<and> map_of os' (int i) = Some (Difference {} {} {})
           \<and> map_of os' (int i + 1) = Some (Difference {} {} {})
           \<and> additions_substitutions_sets {} {} {} = Inr ([], {})"
proof -
  from pure_transposition_scan[OF assms(1-4) assms(9,10) assms(5,6) assms(11)]
  obtain ot ts os' where
    f: "find_transpositions A B (range_py 2 3) (optional_set_edits A B) = Inr (ts, os')"
    and a: "after_inv A B (total (optional_set_edits A B)) (int i) l (ot, ts, os')"
    by blast
  have "length A \<le> length B" using assms(1) by simp
  from boundary_edit_distance_run[OF this assms(2,3), of 2] f
  obtain adds subs where r: "boundary_edit_distance A B 2 = Inr (adds, subs, ts)"
    by auto
  have m: "additions_substitutions_sets {} {} {} = Inr ([], {})"
    by code_simp
  from a have "count_list ts (Transposition (int i) (int i + 1) l) = 1"
    and "map_of os' (int i) = Some (Difference {} {} {})"
    and "map_of os' (int i + 1) = Some (Difference {} {} {})"
    by (simp_all add: after_inv_def)
  then show ?thesis using r f m by blast
qed

theorem pure_transposition_witness:
  "length [{2}, {1, 3}, {3}, {1 :: int}] = length [{2}, {3}, {1, 3}, {} :: int set]
   \<and> Suc 1 < length [{2}, {1, 3}, {3}, {1 :: int}]
   \<and> set_xor ([{2}, {1, 3}, {3}, {1}] ! 1) ([{2}, {3}, {1, 3}, {}] ! 1) = {1}
   \<and> set_xor ([{2}, {1, 3}, {3}, {1}] ! Suc 1) ([{2}, {3}, {1, 3}, {}] ! Suc 1) = {1}
   \<and> boundary_edit_distance [{2}, {1, 3}, {3}, {1}] [{2}, {3}, {1, 3}, {}] 2
        = Inr ([Addition 1 ''a''], [], [Transposition 1 2 1])
   \<and> (\<exists>adds subs ts os'.
           boundary_edit_distance [{2}, {1, 3}, {3}, {1}] [{2}, {3}, {1, 3}, {}] 2
             = Inr (adds, subs, ts)
           \<and> find_transpositions [{2}, {1, 3}, {3}, {1}] [{2}, {3}, {1, 3}, {}] (range_py 2 3)
                (optional_set_edits [{2}, {1, 3}, {3}, {1}] [{2}, {3}, {1, 3}, {}]) = Inr (ts, os')
           \<and> count_list ts (Transposition (int 1) (int 1 + 1) 1) = 1
           \<and> map_of os' (int 1) = Some (Difference {} {} {})
           \<and> map_of os' (int 1 + 1) = Some (Difference {} {} {})
           \<and> additions_substitutions_sets {} {} {} = Inr ([], {}))"
proof -
  let ?A = "[{2}, {1, 3}, {3}, {1 :: int}]"
  let ?B = "[{2}, {3}, {1, 3}, {} :: int set]"
  have len: "length ?A = length ?B" by simp
  have f1: "\<forall>s\<in>set ?A. finite s" and f2: "\<forall>s\<in>set ?B. finite s" by simp_all
  have i: "Suc 1 < length ?A" by simp
  have m: "(1::int) \<in> ?A ! 1" "(1::int) \<in> ?B ! Suc 1" "(1::int) \<notin> ?A ! Suc 1" "(1::int) \<notin> ?B ! 1"
    by simp_all
  have xi: "set_xor (?A ! 1) (?B ! 1) = {1}" by (auto simp: set_xor_def)
  have xj: "set_xor (?A ! Suc 1) (?B ! Suc 1) = {1}" by (auto simp: set_xor_def)
  have prev: "(1::nat) = 0 \<or> (1::int) \<notin> ?B ! (1 - 1) \<or> (1::int) \<in> ?A ! (1 - 1)" by simp
  have v: "boundary_edit_distance ?A ?B 2 = Inr ([Addition 1 ''a''], [], [Transposition 1 2 1])"
    by code_simp
  note w = pure_transposition[OF len f1 f2 i m xi xj prev]
  show ?thesis by (intro conjI len i xi xj v w)
qed

text \<open>
  C5. For equal-length boundary strings and every maximum span \<open>n_t\<close>, each returned
  transposition spans at least 2 and at most \<open>n_t\<close> positions
  (\<open>end - start + 1\<close>); for \<open>n_t < 2\<close> no transposition is returned and the additions
  and substitutions are those of the matcher run on the untouched difference records, so
  that they account for every disagreement.
\<close>

theorem transposition_span_bound:
  assumes "length A = length B" and "\<forall>s\<in>set A. finite s" and "\<forall>s\<in>set B. finite s"
  shows "\<exists>adds subs ts. boundary_edit_distance A B n_t = Inr (adds, subs, ts)
           \<and> (\<forall>t\<in>set ts. 2 \<le> tr_end t - tr_start t + 1 \<and> tr_end t - tr_start t + 1 \<le> n_t)
           \<and> (n_t < 2 \<longrightarrow> ts = []
                 \<and> fold_err construct (map snd (optional_set_edits A B)) ([], [])
                     = Inr (adds, subs)
                 \<and> length adds + 2 * length subs
                     = (\<Sum>(a_i, b_i)\<leftarrow>zip A B. card (set_xor a_i b_i)))"
proof -
  have "length A \<le> length B" using assms(1) by simp
  from boundary_edit_distance_run[OF this assms(2,3), of n_t]
  obtain adds subs ts ot os' where
    f: "find_transpositions A B (range_py 2 (n_t + 1)) (optional_set_edits A B) = Inr (ts, os')"
    and r: "boundary_edit_distance A B n_t = Inr (adds, subs, ts)"
    and c: "length adds + 2 * length subs = total os'"
    by blast
  have span: "\<forall>t\<in>set ts. 2 \<le> tr_end t - tr_start t + 1 \<and> tr_end t - tr_start t + 1 \<le> n_t"
    using find_transpositions_span[OF f] by (auto simp: set_range_py)
  have off: "ts = [] \<and> fold_err construct (map snd (optional_set_edits A B)) ([], [])
                     = Inr (adds, subs)
                 \<and> length adds + 2 * length subs
                     = (\<Sum>(a_i, b_i)\<leftarrow>zip A B. card (set_xor a_i b_i))"
    if "n_t < 2"
  proof -
    from that have e: "range_py 2 (n_t + 1) = []" by (simp add: range_py_def)
    have "find_transpositions A B [] (optional_set_edits A B) = Inr ([], optional_set_edits A B)"
      by (rule find_transpositions_no_scan) simp
    with f have ts: "ts = []" and os': "os' = optional_set_edits A B"
      unfolding e by simp_all
    have "fold_err construct (map snd (optional_set_edits A B)) ([], []) = Inr (adds, subs)"
      using r f unfolding boundary_edit_distance_def Let_def os'
      by (auto split: sum.splits)
    then show ?thesis
      using ts c unfolding os' by (simp add: optional_set_edits_total)
  qed
  show ?thesis using r span off by blast
qed

theorem transposition_span_bound_witness:
  "boundary_edit_distance [{1}, {}, {2}, {}, {}] [{}, {1}, {}, {}, {2}] 3
      = Inr ([], [], [Transposition 0 1 1, Transposition 2 4 2])
   \<and> boundary_edit_distance [{1}, {}, {2}, {}, {}] [{}, {1}, {}, {}, {2}] 1
      = Inr ([Addition 1 ''a'', Addition 1 ''b'', Addition 2 ''a'', Addition 2 ''b''], [], [])
   \<and> (\<exists>adds subs ts. boundary_edit_distance [{1}, {}, {2}, {}, {}] [{}, {1}, {}, {}, {2}] 3
          = Inr (adds, subs, ts)
        \<and> (\<forall>t\<in>set ts. 2 \<le> tr_end t - tr_start t + 1 \<and> tr_end t - tr_start t + 1 \<le> 3))
   \<and> (\<exists>adds subs ts. boundary_edit_distance [{1}, {}, {2}, {}, {}] [{}, {1}, {}, {}, {2}] 1
          = Inr (adds, subs, ts) \<and> ts = []
        \<and> length adds + 2 * length subs
            = (\<Sum>(a_i, b_i)\<leftarrow>zip [{1}, {}, {2}, {}, {}] [{}, {1}, {}, {}, {2 :: int}].
                 card (set_xor a_i b_i)))"
proof -
  let ?A = "[{1}, {}, {2}, {}, {} :: int set]"
  let ?B = "[{}, {1}, {}, {}, {2 :: int}]"
  have l: "length ?A = length ?B" by simp
  have f1: "\<forall>s\<in>set ?A. finite s" and f2: "\<forall>s\<in>set ?B. finite s" by simp_all
  have v3: "boundary_edit_distance ?A ?B 3
      = Inr ([], [], [Transposition 0 1 1, Transposition 2 4 2])"
    by code_simp
  have v1: "boundary_edit_distance ?A ?B 1
      = Inr ([Addition 1 ''a'', Addition 1 ''b'', Addition 2 ''a'', Addition 2 ''b''], [], [])"
    by code_simp
  have w3: "\<exists>adds subs ts. boundary_edit_distance ?A ?B 3 = Inr (adds, subs, ts)
        \<and> (\<forall>t\<in>set ts. 2 \<le> tr_end t - tr_start t + 1 \<and> tr_end t - tr_start t + 1 \<le> 3)"
    using transposition_span_bound[OF l f1 f2, of 3] by blast
  have w1: "\<exists>adds subs ts. boundary_edit_distance ?A ?B 1 = Inr (adds, subs, ts) \<and> ts = []
        \<and> length adds + 2 * length subs
            = (\<Sum>(a_i, b_i)\<leftarrow>zip ?A ?B. card (set_xor a_i b_i))"
    using transposition_span_bound[OF l f1 f2, of 1] by fastforce
  show ?thesis by (intro conjI v3 v1 w3 w1)
qed




text \<open>
  C7. When \<open>find_transpositions\<close> accepts a transposition \<open>(i, j, d)\<close>, the label
  \<open>d\<close> is removed at once from the three sets of the records of both positions; and in
  the mapping that \<open>find_transpositions\<close> hands back, which is the one
  \<open>additions_substitutions_sets\<close> consumes, no record at the start or the end of an
  accepted transposition contains its label.
\<close>

theorem transposition_labels_removed:
  "(try_transposition i j d (ot, ts, os) = Inr (ot', ts', os') \<and> ts' \<noteq> ts
      \<longrightarrow> ts' = ts @ [Transposition i j d]
          \<and> (\<exists>r_i r_j. map_of os' i = Some r_i \<and> map_of os' j = Some r_j
                \<and> d \<notin> sim r_i \<union> a_b r_i \<union> b_a r_i \<and> d \<notin> sim r_j \<union> a_b r_j \<union> b_a r_j))
   \<and> (find_transpositions A B n_t os = Inr (ts, os') \<and> t \<in> set ts
        \<and> (p = tr_start t \<or> p = tr_end t) \<and> map_of os' p = Some r
      \<longrightarrow> tr_type t \<notin> sim r \<union> a_b r \<union> b_a r)"
proof (intro conjI impI)
  assume a: "try_transposition i j d (ot, ts, os) = Inr (ot', ts', os') \<and> ts' \<noteq> ts"
  then have run: "try_transposition i j d (ot, ts, os) = Inr (ot', ts', os')" and ne: "ts' \<noteq> ts"
    by simp_all
  from run show "ts' = ts @ [Transposition i j d]"
    using ne by (cases rule: try_transposition_cases) simp_all
  from run show "\<exists>r_i r_j. map_of os' i = Some r_i \<and> map_of os' j = Some r_j
                \<and> d \<notin> sim r_i \<union> a_b r_i \<union> b_a r_i \<and> d \<notin> sim r_j \<union> a_b r_j \<union> b_a r_j"
  proof (cases rule: try_transposition_cases)
    case rejected
    then show ?thesis using ne by simp
  next
    case (accepted os_i os_j)
    then have os': "os' = os_j" by simp
    from accepted(3) obtain r0 where r0: "map_of os i = Some r0"
      by (auto simp: discard_at_def split: option.splits)
    from accepted(4) obtain r1 where r1: "map_of os_i j = Some r1"
      by (auto simp: discard_at_def split: option.splits)
    show ?thesis
      unfolding os' map_of_discard_at[OF accepted(4)] map_of_discard_at[OF accepted(3)]
      using r0 r1 by (auto simp: map_of_discard_at[OF accepted(3)] split: if_splits)
  qed
next
  assume a: "find_transpositions A B n_t os = Inr (ts, os') \<and> t \<in> set ts
        \<and> (p = tr_start t \<or> p = tr_end t) \<and> map_of os' p = Some r"
  let ?P = "\<lambda>st::ft_state. case st of (ot, ts, os) \<Rightarrow>
              \<forall>t\<in>set ts. removed_at os (tr_start t) (tr_type t) \<and> removed_at os (tr_end t) (tr_type t)"
  from a have run: "find_transpositions A B n_t os = Inr (ts, os')" by simp
  have "\<exists>ot. ?P (ot, ts, os')"
    using run
  proof (rule find_transpositions_inv[where P = ?P])
    show "?P (Map.empty, [], os)" by simp
  next
    fix n i j d t t'
    assume "?P t" and "try_transposition i j d t = Inr t'"
    then show "?P t'"
      using try_transposition_removed[of i j d] by (cases t; cases t') auto
  qed
  then have "removed_at os' p (tr_type t)" using a by auto
  then show "tr_type t \<notin> sim r \<union> a_b r \<union> b_a r"
    using a by (simp add: removed_at_def)
qed

theorem transposition_labels_removed_witness:
  "(\<exists>ot'. try_transposition 0 1 1 (Map.empty, [], optional_set_edits [{1}, {}] [{}, {1}])
       = Inr (ot', [Transposition 0 1 1], [(0, Difference {} {} {}), (1, Difference {} {} {})]))
   \<and> find_transpositions [{1}, {}] [{}, {1}] [2] (optional_set_edits [{1}, {}] [{}, {1}])
       = Inr ([Transposition 0 1 1], [(0, Difference {} {} {}), (1, Difference {} {} {})])
   \<and> (1::int) \<notin> sim (Difference {} {} {}) \<union> a_b (Difference {} {} {}) \<union> b_a (Difference {} {} {})"
proof -
  let ?os = "optional_set_edits [{1}, {}] [{}, {1}]"
  let ?os' = "[(0, Difference {} {} {}), (1, Difference {} {} {})]"
  have f: "find_transpositions [{1}, {}] [{}, {1}] [2] ?os = Inr ([Transposition 0 1 1], ?os')"
    by code_simp
  have "map_sum id snd (try_transposition 0 1 1 (Map.empty, [], ?os))
          = Inr ([Transposition 0 1 1], ?os')"
    by code_simp
  then obtain ot' where g: "try_transposition 0 1 1 (Map.empty, [], ?os)
          = Inr (ot', [Transposition 0 1 1], ?os')"
    by (cases "try_transposition 0 1 1 (Map.empty, [], ?os)") auto
  show ?thesis
    using f g transposition_labels_removed[of 0 1 1 Map.empty "[]" ?os ot' "[Transposition 0 1 1]"
        ?os' "[{1}, {}]" "[{}, {1}]" "[2]" "Transposition 0 1 1" 0 "Difference {} {} {}"]
    by simp
qed

text \<open>
  C8. A boundary string compared with itself gives the empty decomposition, whatever its
  length, its label sets and the maximum span.
\<close>

theorem identity_empty:
  "boundary_edit_distance s s n_t = Inr ([], [], [])"
proof -
  have "\<exists>ot ts os'. find_transpositions s s (range_py 2 (n_t + 1)) [] = Inr (ts, os')
          \<and> (ot, ts, os') = ((Map.empty, [], []) :: ft_state)"
  proof (rule find_transpositions_total[where Q = "\<lambda>st. st = (Map.empty, [], [])"])
    show "\<forall>n\<in>set (range_py 2 (n_t + 1)). 1 \<le> n" by (simp add: set_range_py)
    show "length s \<le> length s" by simp
    show "(Map.empty, [], []) = (Map.empty, [], [])" by simp
  next
    fix n i d and t :: ft_state
    assume "d \<in> candidates s s i (i + (n - 1))"
    then have False by (simp add: candidates_def set_xor_def)
    then show "\<exists>t'. try_transposition i (i + (n - 1)) d t = Inr t' \<and> t' = (Map.empty, [], [])"
      by simp
  qed
  then have "find_transpositions s s (range_py 2 (n_t + 1)) [] = Inr ([], [])" by auto
  then show ?thesis
    by (simp add: boundary_edit_distance_def optional_set_edits_same)
qed

theorem identity_empty_witness:
  "boundary_edit_distance [{1, 2}, {}, {3}, {1}, {2, 4}] [{1, 2}, {}, {3}, {1}, {2, 4}] 3
     = Inr ([], [], [])"
  using identity_empty[of "[{1, 2}, {}, {3}, {1}, {2, 4}]" 3] by simp

text \<open>
  C9. For finite disjoint sets \<open>a\<close> and \<open>b\<close> with \<open>d = a \<union> b\<close>,
  \<open>additions_substitutions d a b\<close> returns exactly the pair
  \<open>(| |a| - |b| |, min |a| |b|)\<close>: the quotient \<open>(len(d) - additions) / 2\<close> is a
  non-negative integer, never a fraction.
\<close>

theorem additions_substitutions_exact:
  assumes "finite a" and "finite b" and "a \<inter> b = {}" and "d = a \<union> b"
  shows "additions_substitutions d a b
           = (\<bar>int (card a) - int (card b)\<bar>, of_nat (min (card a) (card b)))
         \<and> snd (additions_substitutions d a b) \<in> \<int>
         \<and> 0 \<le> snd (additions_substitutions d a b)"
  using additions_substitutions_eq[OF assms] by simp

theorem additions_substitutions_exact_witness:
  "finite {2, 3, 4 :: int} \<and> finite {6 :: int} \<and> {2, 3, 4} \<inter> {6 :: int} = {}
   \<and> additions_substitutions {2, 3, 4, 6} {2, 3, 4} {6} = (2, 1)"
proof -
  have h: "{2, 3, 4, 6} = {2, 3, 4} \<union> {6 :: int}" by auto
  have k: "{2, 3, 4} \<inter> {6 :: int} = {}" by simp
  show ?thesis
    using additions_substitutions_exact[OF _ _ k h] by simp
qed

text \<open>
  C10. When \<open>boundary_string_b\<close> is strictly longer than \<open>boundary_string_a\<close>,
  \<open>boundary_edit_distance\<close> raises no error and returns what it returns on
  \<open>boundary_string_a\<close> and the prefix of \<open>boundary_string_b\<close> of the same length: the
  positions beyond the prefix have no influence on the result.
\<close>

theorem longer_b_prefix:
  assumes "length A < length B" and "\<forall>s\<in>set A. finite s" and "\<forall>s\<in>set B. finite s"
  shows "boundary_edit_distance A B n_t = boundary_edit_distance A (take (length A) B) n_t
         \<and> (\<exists>adds subs ts. boundary_edit_distance A B n_t = Inr (adds, subs, ts))"
proof -
  have le: "length A \<le> length B" using assms(1) by simp
  from boundary_edit_distance_run[OF le assms(2,3), of n_t]
  have "\<exists>adds subs ts. boundary_edit_distance A B n_t = Inr (adds, subs, ts)" by blast
  then show ?thesis using boundary_edit_distance_take_b[OF le, of n_t] by simp
qed

theorem longer_b_prefix_witness:
  "length [{1}, {} :: int set] < length [{}, {1}, {5}, {6 :: int}]
   \<and> boundary_edit_distance [{1}, {}] [{}, {1}, {5}, {6}] 2 = Inr ([], [], [Transposition 0 1 1])
   \<and> boundary_edit_distance [{1}, {}] [{}, {1}, {5}, {6}] 2
       = boundary_edit_distance [{1}, {}] (take (length [{1}, {} :: int set]) [{}, {1}, {5}, {6}]) 2"
proof -
  let ?A = "[{1}, {} :: int set]"
  let ?B = "[{}, {1}, {5}, {6 :: int}]"
  have l: "length ?A < length ?B" by simp
  have f1: "\<forall>s\<in>set ?A. finite s" and f2: "\<forall>s\<in>set ?B. finite s" by simp_all
  have v: "boundary_edit_distance ?A ?B 2 = Inr ([], [], [Transposition 0 1 1])"
    by code_simp
  from longer_b_prefix[OF l f1 f2, of 2]
  have "boundary_edit_distance ?A ?B 2 = boundary_edit_distance ?A (take (length ?A) ?B) 2"
    by (rule conjunct1)
  then show ?thesis using l v by blast
qed

end
